theory Spec2Isabelle
  imports Main "HOL-Library.Word" "HOL-Library.Signed_Division" "HOL-Library.Monad_Syntax"
begin

unbundle bit_operations_syntax

section \<open>Data model of the QR encoder\<close>

text \<open>
  The encoder lives in package \<open>qr\<close>. Go's \<open>int\<close> is modelled as \<open>int\<close>: every
  integer of the encoder is a length, a coordinate or a penalty of a grid that fits in
  memory, far from the 64-bit limits. A \<open>byte\<close> is an \<open>8 word\<close>. A grid
  (\<open>[][]bool\<close>) is a list of rows. An index out of range panics in Go; the model
  returns \<open>None\<close> there.
\<close>

datatype ErrorLevel = Low | Medium | Quartile | High

text \<open>The \<open>iota\<close> value of each level, used as a table index and as its strength.\<close>

fun levelIndex :: "ErrorLevel \<Rightarrow> nat" where
  "levelIndex Low = 0"
| "levelIndex Medium = 1"
| "levelIndex Quartile = 2"
| "levelIndex High = 3"

type_synonym grid = "bool list list"

record QRCode =
  Version :: int
  Size :: int
  ErrorLevel :: ErrorLevel
  Mask :: int
  Modules :: grid
  IsFunction :: grid
  Data :: "8 word list"

definition versionCapacity :: "int list list" where
  "versionCapacity =
    [[17, 14, 11, 7],
     [32, 26, 20, 14],
     [53, 42, 32, 24],
     [78, 62, 46, 34],
     [106, 84, 60, 44],
     [134, 106, 74, 58],
     [154, 122, 86, 64],
     [192, 152, 108, 84],
     [230, 180, 130, 98],
     [271, 213, 151, 119]]"

definition formatInfos :: "int list list" where
  "formatInfos =
    [[0x5412, 0x5125, 0x5E7C, 0x5B4B, 0x45F9, 0x40CE, 0x4F97, 0x4AA0],
     [0x5125, 0x5412, 0x4B6B, 0x4E5C, 0x50EE, 0x55D9, 0x5A80, 0x5FB7],
     [0x17F4, 0x1261, 0x1D38, 0x180F, 0x06BD, 0x038A, 0x0CD3, 0x09E4],
     [0x1689, 0x13BE, 0x1CE7, 0x19D0, 0x0762, 0x0255, 0x0D0C, 0x083B]]"

text \<open>
  The two errors of \<open>NewQRCode\<close>, named after their messages: \<open>invalid URL format: %s\<close>
  (the InputError of the design) and \<open>URL too long for QR code: %d bytes\<close> (its
  CapacityError).
\<close>

datatype qr_error = InvalidURLFormat string | URLTooLong int

section \<open>Symbol sizer\<close>

text \<open>The table lookup \<open>versionCapacity[v-1][int(el)]\<close>.\<close>

definition capacityAt :: "int \<Rightarrow> ErrorLevel \<Rightarrow> int" where
  "capacityAt v el = versionCapacity ! nat (v - 1) ! levelIndex el"

text \<open>The inner loop of the sizer: the first level of the list whose capacity suffices.\<close>

fun levelLoop :: "int \<Rightarrow> int \<Rightarrow> ErrorLevel list \<Rightarrow> ErrorLevel option" where
  "levelLoop requiredCapacity v [] = None"
| "levelLoop requiredCapacity v (el # els) =
     (if capacityAt v el \<ge> requiredCapacity then Some el
      else levelLoop requiredCapacity v els)"

text \<open>The outer loop \<open>for v := 1; v <= len(versionCapacity); v++\<close>, entered at \<open>v\<close>.\<close>

function versionLoop :: "int \<Rightarrow> int \<Rightarrow> int \<times> ErrorLevel" where
  "versionLoop requiredCapacity v =
     (if v \<le> int (length versionCapacity) then
        (case levelLoop requiredCapacity v [High, Quartile, Medium, Low] of
           Some el \<Rightarrow> (v, el)
         | None \<Rightarrow> versionLoop requiredCapacity (v + 1))
      else (- 1, Low))"
  by pat_completeness auto
termination
  by (relation "measure (\<lambda>(r, v). nat (int (length versionCapacity) + 1 - v))") auto

definition determineVersionAndErrorLevel :: "int \<Rightarrow> int \<times> ErrorLevel" where
  "determineVersionAndErrorLevel dataLen = versionLoop (dataLen + 3) 1"

section \<open>The factory\<close>

text \<open>\<open>isValidURL\<close> returns after the length test; the pattern match below it is dead.\<close>

definition isValidURL :: "string \<Rightarrow> bool" where
  "isValidURL url = (if length url = 0 then False else True)"

definition initializeGrids :: "QRCode \<Rightarrow> QRCode" where
  "initializeGrids qr =
     qr\<lparr>Modules := replicate (nat (Size qr)) (replicate (nat (Size qr)) False),
        IsFunction := replicate (nat (Size qr)) (replicate (nat (Size qr)) False)\<rparr>"

definition NewQRCode :: "string \<Rightarrow> qr_error + QRCode" where
  "NewQRCode url =
     (if \<not> isValidURL url then Inl (InvalidURLFormat url)
      else
        let data = map of_char url :: 8 word list;
            (version, errorLevel) = determineVersionAndErrorLevel (int (length data))
        in if version = - 1 then Inl (URLTooLong (int (length data)))
           else
             let size = 21 + (version - 1) * 4
             in Inr (initializeGrids
                  \<lparr>Version = version, Size = size, ErrorLevel = errorLevel, Mask = 0,
                   Modules = [], IsFunction = [], Data = data\<rparr>))"

section \<open>Grid access\<close>

text \<open>
  \<open>g[y][x]\<close> read and written; \<open>None\<close> is Go's index-out-of-range panic. Rows are
  values here: \<open>initializeGrids\<close> allocates every row on its own, so no two rows share
  storage.
\<close>

definition readCell :: "grid \<Rightarrow> int \<Rightarrow> int \<Rightarrow> bool option" where
  "readCell g y x =
     (if 0 \<le> y \<and> y < int (length g) \<and> 0 \<le> x \<and> x < int (length (g ! nat y))
      then Some (g ! nat y ! nat x) else None)"

definition writeCell :: "grid \<Rightarrow> int \<Rightarrow> int \<Rightarrow> bool \<Rightarrow> grid option" where
  "writeCell g y x v =
     (if 0 \<le> y \<and> y < int (length g) \<and> 0 \<le> x \<and> x < int (length (g ! nat y))
      then Some (g[nat y := (g ! nat y)[nat x := v]]) else None)"

definition inBounds :: "QRCode \<Rightarrow> int \<Rightarrow> int \<Rightarrow> bool" where
  "inBounds qr x y = (x \<ge> 0 \<and> x < Size qr \<and> y \<ge> 0 \<and> y < Size qr)"

definition setModule :: "int \<Rightarrow> int \<Rightarrow> bool \<Rightarrow> QRCode \<Rightarrow> QRCode option" where
  "setModule x y v qr =
     (if inBounds qr x y
      then map_option (\<lambda>g. qr\<lparr>Modules := g\<rparr>) (writeCell (Modules qr) y x v)
      else Some qr)"

definition setFunction :: "int \<Rightarrow> int \<Rightarrow> bool \<Rightarrow> QRCode \<Rightarrow> QRCode option" where
  "setFunction x y v qr =
     (if inBounds qr x y
      then map_option (\<lambda>g. qr\<lparr>IsFunction := g\<rparr>) (writeCell (IsFunction qr) y x v)
      else Some qr)"

text \<open>
  A counted \<open>for\<close> loop whose body may panic: the body runs once for each index of the
  list, in order, on the state left by the previous round.
\<close>

fun forEach :: "'i list \<Rightarrow> ('i \<Rightarrow> 's \<Rightarrow> 's option) \<Rightarrow> 's \<Rightarrow> 's option" where
  "forEach [] body s = Some s"
| "forEach (i # is) body s =
     (case body i s of None \<Rightarrow> None | Some s' \<Rightarrow> forEach is body s')"

text \<open>
  The data-model invariant that \<open>initializeGrids\<close> establishes: both grids are
  \<open>Size\<close> by \<open>Size\<close>.
\<close>

definition gridSquare :: "int \<Rightarrow> grid \<Rightarrow> bool" where
  "gridSquare n g = (length g = nat n \<and> list_all (\<lambda>row. length row = nat n) g)"

definition wellFormed :: "QRCode \<Rightarrow> bool" where
  "wellFormed qr =
     (0 \<le> Size qr \<and> gridSquare (Size qr) (Modules qr) \<and> gridSquare (Size qr) (IsFunction qr))"

section \<open>Format information\<close>

text \<open>\<open>formatInfos[int(qr.ErrorLevel)][qr.Mask]\<close>; a mask outside 0..7 panics.\<close>

definition formatInfoOf :: "QRCode \<Rightarrow> int option" where
  "formatInfoOf qr =
     (if 0 \<le> Mask qr \<and> Mask qr < int (length (formatInfos ! levelIndex (QRCode.ErrorLevel qr)))
      then Some (formatInfos ! levelIndex (QRCode.ErrorLevel qr) ! nat (Mask qr))
      else None)"

text \<open>\<open>((formatInfo >> i) & 1) != 0\<close>\<close>

definition formatBit :: "int \<Rightarrow> int \<Rightarrow> bool" where
  "formatBit formatInfo i = (drop_bit (nat i) formatInfo AND 1 \<noteq> 0)"

definition formatBitStep :: "int \<Rightarrow> int \<Rightarrow> QRCode \<Rightarrow> QRCode option" where
  "formatBitStep formatInfo i qr =
     (let b = formatBit formatInfo i in
      if i < 6 then
        do { q1 \<leftarrow> setModule 8 i b qr;
             q2 \<leftarrow> setModule i 8 b q1;
             q3 \<leftarrow> setFunction 8 i True q2;
             setFunction i 8 True q3 }
      else if i = 6 then
        do { q1 \<leftarrow> setModule 8 7 b qr;
             q2 \<leftarrow> setModule 7 8 b q1;
             q3 \<leftarrow> setFunction 8 7 True q2;
             setFunction 7 8 True q3 }
      else if i = 7 then
        do { q1 \<leftarrow> setModule 8 8 b qr;
             setFunction 8 8 True q1 }
      else if i = 8 then
        do { q1 \<leftarrow> setModule 7 8 b qr;
             setFunction 7 8 True q1 }
      else
        do { q1 \<leftarrow> setModule (14 - i) 8 b qr;
             q2 \<leftarrow> setModule 8 (Size q1 - 15 + i) b q1;
             q3 \<leftarrow> setFunction (14 - i) 8 True q2;
             setFunction 8 (Size q3 - 15 + i) True q3 })"

definition addFormatInfo :: "QRCode \<Rightarrow> QRCode option" where
  "addFormatInfo qr =
     do { formatInfo \<leftarrow> formatInfoOf qr;
          q1 \<leftarrow> forEach [0..14] (formatBitStep formatInfo) qr;
          q2 \<leftarrow> setModule 8 (Size q1 - 8) True q1;
          setFunction 8 (Size q2 - 8) True q2 }"

section \<open>Byte-mode encoder\<close>

definition getDataCapacity :: "QRCode \<Rightarrow> int" where
  "getDataCapacity qr =
     (if Version qr > int (length versionCapacity) \<or> Version qr < 1 then 0
      else versionCapacity ! nat (Version qr - 1) ! levelIndex (QRCode.ErrorLevel qr))"

text \<open>
  \<open>intToBits\<close> fills a fresh slice of \<open>len\<close> bits from its end: bit \<open>i\<close> of the value
  goes to position \<open>len - 1 - i\<close>.
\<close>

definition intToBits :: "int \<Rightarrow> nat \<Rightarrow> bool list" where
  "intToBits val len =
     fold (\<lambda>i bits. bits[len - 1 - i := (drop_bit i val AND 1 \<noteq> 0)]) [0..<len]
       (replicate len False)"

text \<open>\<open>for len(bits)%8 != 0 { bits = append(bits, false) }\<close>\<close>

function padToByte :: "bool list \<Rightarrow> bool list" where
  "padToByte bits = (if length bits mod 8 \<noteq> 0 then padToByte (bits @ [False]) else bits)"
  by pat_completeness auto
termination
proof (relation "measure (\<lambda>bits. (8 - length bits mod 8) mod 8)")
  show "wf (measure (\<lambda>bits. (8 - length bits mod 8) mod 8))" by simp
next
  fix bits :: "bool list"
  assume a: "length bits mod 8 \<noteq> 0"
  have b: "length bits mod 8 < 8" by simp
  have "(8 - Suc (length bits) mod 8) mod 8 < (8 - length bits mod 8) mod 8"
    using a b unfolding mod_Suc [of "length bits" 8] by (auto split: if_splits)
  then show "(bits @ [False], bits) \<in> measure (\<lambda>bits. (8 - length bits mod 8) mod 8)"
    by simp
qed

definition padBytes :: "8 word list" where
  "padBytes = [0xEC, 0x11]"

text \<open>\<open>for len(bits) < maxBits { ...; padIndex++ }\<close>\<close>

function addPadBytes :: "int \<Rightarrow> int \<Rightarrow> bool list \<Rightarrow> bool list" where
  "addPadBytes maxBits padIndex bits =
     (if int (length bits) < maxBits
      then addPadBytes maxBits (padIndex + 1)
             (bits @ intToBits (uint (padBytes ! nat (padIndex smod 2))) 8)
      else bits)"
  by pat_completeness auto
termination
proof -
  have len: "length (fold (\<lambda>i bits. bits[f i := g i]) is bs) = length bs"
    for f :: "nat \<Rightarrow> nat" and g :: "nat \<Rightarrow> bool" and "is" bs
    by (induction "is" arbitrary: bs) simp_all
  show ?thesis
    by (relation "measure (\<lambda>(maxBits, padIndex, bits). nat (maxBits - int (length bits)))")
       (auto simp: intToBits_def len)
qed

text \<open>The final conversion: byte \<open>i\<close> collects bits \<open>8 i\<close> to \<open>8 i + 7\<close>, first bit highest.\<close>

definition bitsToBytes :: "bool list \<Rightarrow> 8 word list" where
  "bitsToBytes bits =
     map (\<lambda>i. fold (\<lambda>j b. if bits ! (i * 8 + j) then b OR push_bit (7 - j) 1 else b) [0..<8] 0)
       [0..<length bits div 8]"

text \<open>The bit stream of \<open>encodeData\<close> before the conversion to bytes.\<close>

definition encodeBits :: "QRCode \<Rightarrow> bool list" where
  "encodeBits qr =
     (let data = Data qr;
          modeBits = [False, True, False, False];
          bits1 = [] @ modeBits;
          lengthBits = intToBits (int (length data)) 8;
          bits2 = bits1 @ lengthBits;
          bits3 = fold (\<lambda>b bits. bits @ intToBits (uint b) 8) data bits2;
          maxBits = getDataCapacity qr * 8;
          terminatorLength = min 4 (maxBits - int (length bits3));
          bits4 = bits3 @ replicate (nat terminatorLength) False;
          bits5 = padToByte bits4
      in addPadBytes maxBits 0 bits5)"

text \<open>\<open>encodeData\<close> always returns a nil error; the model returns the bytes alone.\<close>

definition encodeData :: "QRCode \<Rightarrow> 8 word list" where
  "encodeData qr = bitsToBytes (encodeBits qr)"

section \<open>Data placer\<close>

text \<open>One visited cell \<open>(x, y)\<close> of the zigzag; the state is \<open>bitIndex\<close> and the symbol.\<close>

definition addDataCell :: "8 word list \<Rightarrow> int \<Rightarrow> int \<Rightarrow> int \<times> QRCode \<Rightarrow> (int \<times> QRCode) option"
  where
  "addDataCell data x y = (\<lambda>(bitIndex, qr).
     if inBounds qr x y then
       (case readCell (IsFunction qr) y x of
          None \<Rightarrow> None
        | Some f \<Rightarrow>
            if \<not> f then
              (if bitIndex < int (length data) * 8 then
                 map_option (Pair (bitIndex + 1))
                   (setModule x y
                      (data ! nat (bitIndex sdiv 8) AND push_bit (nat (7 - bitIndex smod 8)) 1 \<noteq> 0)
                      qr)
               else map_option (Pair bitIndex) (setModule x y False qr))
            else Some (bitIndex, qr))
     else Some (bitIndex, qr))"

definition addDataRow ::
  "8 word list \<Rightarrow> int \<Rightarrow> int \<Rightarrow> int \<Rightarrow> int \<times> QRCode \<Rightarrow> (int \<times> QRCode) option" where
  "addDataRow data n col i =
     (let upward = (((n - 1 - col) sdiv 2) smod 2 = 0);
          row = (if upward then n - 1 - i else i)
      in forEach [0..1] (\<lambda>c. addDataCell data (col - c) row))"

text \<open>\<open>if col == 6 { col-- }\<close>\<close>

definition skipTiming :: "int \<Rightarrow> int" where
  "skipTiming col = (if col = 6 then col - 1 else col)"

text \<open>
  The column loop \<open>for col := qr.Size - 1; col >= 0; col -= 2\<close>, entered at \<open>col\<close>;
  \<open>n\<close> is \<open>qr.Size\<close>, which the loop never assigns.
\<close>

function addDataCols ::
  "8 word list \<Rightarrow> int \<Rightarrow> int \<Rightarrow> int \<times> QRCode \<Rightarrow> (int \<times> QRCode) option" where
  "addDataCols data n col st =
     (if col \<ge> 0 then
        (case forEach [0..n - 1] (addDataRow data n (skipTiming col)) st of
           None \<Rightarrow> None
         | Some st' \<Rightarrow> addDataCols data n (skipTiming col - 2) st')
      else Some st)"
  by pat_completeness auto
termination
  by (relation "measure (\<lambda>(data, n, col, st). nat (col + 1))") (auto simp: skipTiming_def)

definition addData :: "8 word list \<Rightarrow> QRCode \<Rightarrow> QRCode option" where
  "addData data qr = map_option snd (addDataCols data (Size qr) (Size qr - 1) (0, qr))"

section \<open>Mask evaluator and applier\<close>

text \<open>Go's \<open>/\<close> and \<open>%\<close> truncate towards zero: \<open>sdiv\<close> and \<open>smod\<close>.\<close>

definition shouldMask :: "int \<Rightarrow> int \<Rightarrow> int \<Rightarrow> bool" where
  "shouldMask x y msk =
     (if msk = 0 then (x + y) smod 2 = 0
      else if msk = 1 then y smod 2 = 0
      else if msk = 2 then x smod 3 = 0
      else if msk = 3 then (x + y) smod 3 = 0
      else if msk = 4 then (y sdiv 2 + x sdiv 3) smod 2 = 0
      else if msk = 5 then (x * y) smod 2 + (x * y) smod 3 = 0
      else if msk = 6 then ((x * y) smod 2 + (x * y) smod 3) smod 2 = 0
      else if msk = 7 then ((x + y) smod 2 + (x * y) smod 3) smod 2 = 0
      else False)"

definition applyMaskCell :: "int \<Rightarrow> int \<Rightarrow> int \<Rightarrow> QRCode \<Rightarrow> QRCode option" where
  "applyMaskCell msk y x qr =
     (case readCell (IsFunction qr) y x of
        None \<Rightarrow> None
      | Some f \<Rightarrow>
          if \<not> f \<and> shouldMask x y msk then
            (case readCell (Modules qr) y x of
               None \<Rightarrow> None
             | Some m \<Rightarrow> map_option (\<lambda>g. qr\<lparr>Modules := g\<rparr>) (writeCell (Modules qr) y x (\<not> m)))
          else Some qr)"

definition applyMask :: "int \<Rightarrow> QRCode \<Rightarrow> QRCode option" where
  "applyMask msk qr =
     forEach [0..Size qr - 1]
       (\<lambda>y. forEach [0..Size qr - 1] (\<lambda>x. applyMaskCell msk y x)) qr"

text \<open>One step of the row scan; the state is \<open>penalty\<close> and \<open>count\<close>.\<close>

definition penaltyCell :: "QRCode \<Rightarrow> int \<Rightarrow> int \<Rightarrow> int \<times> int \<Rightarrow> (int \<times> int) option" where
  "penaltyCell qr y x = (\<lambda>(penalty, count).
     case readCell (Modules qr) y x of
       None \<Rightarrow> None
     | Some a \<Rightarrow>
         (case readCell (Modules qr) y (x - 1) of
            None \<Rightarrow> None
          | Some b \<Rightarrow>
              if a = b then Some (penalty, count + 1)
              else Some (if count \<ge> 5 then penalty + (3 + (count - 5)) else penalty, 1)))"

definition penaltyRow :: "QRCode \<Rightarrow> int \<Rightarrow> int \<Rightarrow> int option" where
  "penaltyRow qr y penalty =
     (case forEach [1..Size qr - 1] (penaltyCell qr y) (penalty, 1) of
        None \<Rightarrow> None
      | Some (penalty', count) \<Rightarrow>
          Some (if count \<ge> 5 then penalty' + (3 + (count - 5)) else penalty'))"

definition calculatePenalty :: "QRCode \<Rightarrow> int option" where
  "calculatePenalty qr = forEach [0..Size qr - 1] (penaltyRow qr) 0"

text \<open>One candidate mask; the state is \<open>bestMask\<close>, \<open>bestPenalty\<close> and the symbol.\<close>

definition findBestMaskStep ::
  "int \<Rightarrow> int \<times> int \<times> QRCode \<Rightarrow> (int \<times> int \<times> QRCode) option" where
  "findBestMaskStep msk = (\<lambda>(bestMask, bestPenalty, qr).
     case applyMask msk qr of
       None \<Rightarrow> None
     | Some q1 \<Rightarrow>
         (case calculatePenalty q1 of
            None \<Rightarrow> None
          | Some penalty \<Rightarrow>
              (case applyMask msk q1 of
                 None \<Rightarrow> None
               | Some q2 \<Rightarrow>
                   Some (if penalty < bestPenalty then (msk, penalty, q2)
                         else (bestMask, bestPenalty, q2)))))"

text \<open>\<open>math.MaxInt32\<close>\<close>

definition MaxInt32 :: int where
  "MaxInt32 = 2147483647"

text \<open>\<open>findBestMask\<close> returns the mask and leaves the symbol it worked on.\<close>

definition findBestMask :: "QRCode \<Rightarrow> (int \<times> QRCode) option" where
  "findBestMask qr =
     map_option (\<lambda>(bestMask, bestPenalty, q). (bestMask, q))
       (forEach [0..7] findBestMaskStep (0, MaxInt32, qr))"

section \<open>Reference definitions\<close>

text \<open>
  The row-run score as the design states it. The maximal runs of a row: the first run is
  the first cell and every following cell equal to it; the remaining runs are those of
  the rest.
\<close>

function maximalRuns :: "bool list \<Rightarrow> nat list" where
  "maximalRuns [] = []"
| "maximalRuns (v # cells) =
     Suc (length (takeWhile (\<lambda>c. c = v) cells)) # maximalRuns (dropWhile (\<lambda>c. c = v) cells)"
  by pat_completeness auto
termination
  by (relation "measure length") (auto simp: length_dropWhile_le less_Suc_eq_le)

definition runScore :: "nat \<Rightarrow> int" where
  "runScore runLength = (if runLength \<ge> 5 then 3 + (int runLength - 5) else 0)"

definition referenceRowScore :: "bool list \<Rightarrow> int" where
  "referenceRowScore row = sum_list (map runScore (maximalRuns row))"

definition referencePenalty :: "grid \<Rightarrow> int" where
  "referencePenalty g = sum_list (map referenceRowScore g)"

text \<open>The penalty of the grid with a candidate mask applied.\<close>

definition maskPenalty :: "QRCode \<Rightarrow> int \<Rightarrow> int option" where
  "maskPenalty qr msk =
     (case applyMask msk qr of None \<Rightarrow> None | Some q \<Rightarrow> calculatePenalty q)"

text \<open>The bits of a byte sequence, each byte first bit highest.\<close>

definition bytesToBits :: "8 word list \<Rightarrow> bool list" where
  "bytesToBits bytes = concat (map (\<lambda>b. map (\<lambda>j. bit b (7 - j)) [0..<8]) bytes)"

text \<open>The number a bit list denotes, first bit highest.\<close>

definition bitsToNat :: "bool list \<Rightarrow> nat" where
  "bitsToNat bits = foldl (\<lambda>n b. 2 * n + (if b then 1 else 0)) 0 bits"

text \<open>
  The recursion equations of the loops are used one step at a time, where named.
\<close>

declare versionLoop.simps [simp del] padToByte.simps [simp del] addPadBytes.simps [simp del]
  addDataCols.simps [simp del]

section \<open>Definitions used in the proofs\<close>

text \<open>The cell \<open>g[y][x]\<close> of a grid and the grid with one cell replaced.\<close>

definition cell :: "grid \<Rightarrow> int \<Rightarrow> int \<Rightarrow> bool" where
  "cell g y x = g ! nat y ! nat x"

definition putCell :: "grid \<Rightarrow> int \<Rightarrow> int \<Rightarrow> bool \<Rightarrow> grid" where
  "putCell g y x v = g[nat y := (g ! nat y)[nat x := v]]"

text \<open>
  The value a cell has after masking: toggled when it is not a function cell and the
  mask predicate holds.
\<close>

definition maskedCell :: "int \<Rightarrow> QRCode \<Rightarrow> int \<Rightarrow> int \<Rightarrow> bool" where
  "maskedCell msk qr y x =
     (cell (Modules qr) y x \<noteq> (\<not> cell (IsFunction qr) y x \<and> shouldMask x y msk))"

text \<open>
  The state of \<open>applyMask\<close> part of the way through: only the module grid differs from
  the symbol it started on, and exactly the cells visited so far (\<open>P\<close>) carry their
  masked value.
\<close>

definition maskedOn :: "int \<Rightarrow> (int \<Rightarrow> int \<Rightarrow> bool) \<Rightarrow> QRCode \<Rightarrow> QRCode \<Rightarrow> bool" where
  "maskedOn msk P qr q =
     ((\<exists>g. q = qr\<lparr>Modules := g\<rparr>) \<and> gridSquare (Size qr) (Modules q) \<and>
      (\<forall>y x. 0 \<le> y \<and> y < Size qr \<and> 0 \<le> x \<and> x < Size qr \<longrightarrow>
         cell (Modules q) y x = (if P y x then maskedCell msk qr y x else cell (Modules qr) y x)))"

text \<open>
  The invariant of \<open>addData\<close>: only the module grid differs from the symbol it started
  on, and no function cell has changed.
\<close>

definition frameInv :: "QRCode \<Rightarrow> int \<times> QRCode \<Rightarrow> bool" where
  "frameInv qr st =
     (snd st = qr\<lparr>Modules := Modules (snd st)\<rparr> \<and> gridSquare (Size qr) (Modules (snd st)) \<and>
        (\<forall>y x. 0 \<le> y \<and> y < Size qr \<and> 0 \<le> x \<and> x < Size qr \<and> cell (IsFunction qr) y x \<longrightarrow>
           cell (Modules (snd st)) y x = cell (Modules qr) y x))"

text \<open>The row scan of \<open>calculatePenalty\<close> as a function of the cells themselves.\<close>

definition scanStep :: "bool \<Rightarrow> bool \<Rightarrow> int \<times> int \<Rightarrow> int \<times> int" where
  "scanStep a b = (\<lambda>(penalty, count).
     if a = b then (penalty, count + 1)
     else (if count \<ge> 5 then penalty + (3 + (count - 5)) else penalty, 1))"

fun scanList :: "bool \<Rightarrow> bool list \<Rightarrow> int \<times> int \<Rightarrow> int \<times> int" where
  "scanList prev [] s = s"
| "scanList prev (a # as) s = scanList a as (scanStep a prev s)"

text \<open>The comparison of \<open>findBestMask\<close>, given the penalty of every mask.\<close>

definition pickStep :: "(int \<Rightarrow> int) \<Rightarrow> int \<Rightarrow> int \<times> int \<times> QRCode \<Rightarrow> int \<times> int \<times> QRCode" where
  "pickStep pen k = (\<lambda>(b, bp, q). if pen k < bp then (k, pen k, q) else (b, bp, q))"

text \<open>Both grids written at one cell: the module value, and the function mark.\<close>

definition mark :: "int \<Rightarrow> int \<Rightarrow> bool \<Rightarrow> QRCode \<Rightarrow> QRCode" where
  "mark x y v q =
     q\<lparr>Modules := putCell (Modules q) y x v, IsFunction := putCell (IsFunction q) y x True\<rparr>"

text \<open>
  The state of \<open>addFormatInfo\<close> before bit \<open>k\<close>: the cells already written and not
  written again by a later bit below \<open>k\<close> hold their bits and are function cells.
\<close>

definition fmtInv :: "int \<Rightarrow> int \<Rightarrow> int \<Rightarrow> QRCode \<Rightarrow> bool" where
  "fmtInv f n k q =
     (wellFormed q \<and> Size q = n \<and>
      (\<forall>i. 0 \<le> i \<and> i < k \<and> i < 6 \<longrightarrow>
         cell (Modules q) i 8 = formatBit f i \<and> cell (IsFunction q) i 8) \<and>
      (6 < k \<longrightarrow> cell (Modules q) 7 8 = formatBit f 6 \<and> cell (IsFunction q) 7 8) \<and>
      (7 < k \<longrightarrow> cell (Modules q) 8 8 = formatBit f 7 \<and> cell (IsFunction q) 8 8) \<and>
      (8 < k \<longrightarrow> cell (Modules q) 8 7 = formatBit f 8 \<and> cell (IsFunction q) 8 7) \<and>
      (\<forall>i. 9 \<le> i \<and> i < k \<longrightarrow>
         cell (Modules q) 8 (14 - i) = formatBit f i \<and> cell (IsFunction q) 8 (14 - i) \<and>
         cell (Modules q) (n - 15 + i) 8 = formatBit f i \<and> cell (IsFunction q) (n - 15 + i) 8))"

text \<open>The symbol that \<open>NewQRCode\<close> returns for the payload \<open>A\<close>.\<close>

definition freshSymbolA :: QRCode where
  "freshSymbolA = initializeGrids
     \<lparr>Version = 1, Size = 21, ErrorLevel = High, Mask = 0, Modules = [], IsFunction = [],
      Data = [0x41]\<rparr>"

text \<open>A small symbol, six cells a side, with a few function cells in its corner.\<close>

definition exampleSymbol :: QRCode where
  "exampleSymbol =
     \<lparr>Version = 1, Size = 6, ErrorLevel = Low, Mask = 0,
      Modules =
        [[True, True, True, True, True, True],
         [True, False, False, False, False, False],
         [True, False, True, False, True, False],
         [False, False, False, False, False, True],
         [True, True, False, False, True, True],
         [False, True, False, True, False, True]],
      IsFunction =
        [[True, True, True, False, False, False],
         [True, False, False, False, False, False],
         [True, False, False, False, False, False],
         [False, False, False, False, False, False],
         [False, False, False, False, False, False],
         [False, False, False, False, False, False]],
      Data = [0xA5, 0x3C]\<rparr>"

section \<open>Properties of the sizer\<close>

lemma length_versionCapacity: "length versionCapacity = 10"
  by (simp add: versionCapacity_def)

lemma levelLoop_Some:
  "levelLoop r v els = Some el \<Longrightarrow>
     el \<in> set els \<and> capacityAt v el \<ge> r \<and>
     (\<forall>el' \<in> set (takeWhile (\<lambda>e. e \<noteq> el) els). capacityAt v el' < r)"
  by (induction els) (auto split: if_splits)

lemma levelLoop_None:
  "levelLoop r v els = None \<Longrightarrow> \<forall>el' \<in> set els. capacityAt v el' < r"
  by (induction els) (auto split: if_splits)

lemma levelLoop_strongest:
  assumes "levelLoop r v [High, Quartile, Medium, Low] = Some el"
      and "capacityAt v el' \<ge> r"
  shows "levelIndex el' \<le> levelIndex el"
  using levelLoop_Some [OF assms(1)] assms(2)
  by (cases el; cases el') auto

lemma versionLoop_found:
  "versionLoop r v = (w, el) \<Longrightarrow> w \<noteq> - 1 \<Longrightarrow> 1 \<le> v \<Longrightarrow>
     v \<le> w \<and> w \<le> 10 \<and>
     levelLoop r w [High, Quartile, Medium, Low] = Some el \<and>
     (\<forall>v'. v \<le> v' \<and> v' < w \<longrightarrow> levelLoop r v' [High, Quartile, Medium, Low] = None)"
proof (induction r v rule: versionLoop.induct)
  case (1 r v)
  show ?case
  proof (cases "v \<le> 10")
    case False
    with "1.prems" show ?thesis
      by (simp add: versionLoop.simps [of r v] length_versionCapacity)
  next
    case True
    show ?thesis
    proof (cases "levelLoop r v [High, Quartile, Medium, Low]")
      case (Some e)
      with True "1.prems" have "w = v" "el = e"
        by (simp_all add: versionLoop.simps [of r v] length_versionCapacity)
      with Some True show ?thesis by auto
    next
      case None
      with True "1.prems" have rec: "versionLoop r (v + 1) = (w, el)"
        by (simp add: versionLoop.simps [of r v] length_versionCapacity)
      from True have "v \<le> int (length versionCapacity)"
        by (simp add: length_versionCapacity)
      from "1.IH" [OF this None rec] "1.prems"
      have ih: "v + 1 \<le> w \<and> w \<le> 10 \<and>
          levelLoop r w [High, Quartile, Medium, Low] = Some el \<and>
          (\<forall>v'. v + 1 \<le> v' \<and> v' < w \<longrightarrow>
             levelLoop r v' [High, Quartile, Medium, Low] = None)"
        by simp
      have "levelLoop r v' [High, Quartile, Medium, Low] = None"
        if "v \<le> v'" "v' < w" for v'
      proof (cases "v' = v")
        case True
        with None show ?thesis by simp
      next
        case False
        with that ih show ?thesis by simp
      qed
      with ih show ?thesis by simp
    qed
  qed
qed

lemma versionLoop_fail:
  "versionLoop r v = (- 1, el) \<Longrightarrow> 1 \<le> v \<Longrightarrow>
     (\<forall>v'. v \<le> v' \<and> v' \<le> 10 \<longrightarrow> levelLoop r v' [High, Quartile, Medium, Low] = None)"
proof (induction r v rule: versionLoop.induct)
  case (1 r v)
  show ?case
  proof (cases "v \<le> 10")
    case False
    then show ?thesis by simp
  next
    case True
    show ?thesis
    proof (cases "levelLoop r v [High, Quartile, Medium, Low]")
      case (Some e)
      with True "1.prems" show ?thesis
        by (simp add: versionLoop.simps [of r v] length_versionCapacity)
    next
      case None
      with True "1.prems" have rec: "versionLoop r (v + 1) = (- 1, el)"
        by (simp add: versionLoop.simps [of r v] length_versionCapacity)
      from True have "v \<le> int (length versionCapacity)"
        by (simp add: length_versionCapacity)
      from "1.IH" [OF this None rec] "1.prems"
      have ih: "\<forall>v'. v + 1 \<le> v' \<and> v' \<le> 10 \<longrightarrow>
          levelLoop r v' [High, Quartile, Medium, Low] = None"
        by simp
      have "levelLoop r v' [High, Quartile, Medium, Low] = None"
        if "v \<le> v'" "v' \<le> 10" for v'
      proof (cases "v' = v")
        case True
        with None show ?thesis by simp
      next
        case False
        with that ih show ?thesis by simp
      qed
      then show ?thesis by simp
    qed
  qed
qed

lemma capacityAt_10_Low: "capacityAt 10 Low = 271"
  by (simp add: capacityAt_def versionCapacity_def)

lemma capacityAt_le_271:
  assumes "1 \<le> v" "v \<le> 10"
  shows "capacityAt v el \<le> 271"
proof -
  from assms have "v \<in> {1, 2, 3, 4, 5, 6, 7, 8, 9, 10}" by simp arith
  then show ?thesis
    by (cases el) (auto simp: capacityAt_def versionCapacity_def)
qed

section \<open>Properties of grids and loops\<close>

lemma gridSquare_row:
  "gridSquare n g \<Longrightarrow> 0 \<le> y \<Longrightarrow> y < n \<Longrightarrow> length (g ! nat y) = nat n"
  by (simp add: gridSquare_def list_all_length)

lemma readCell_square:
  "gridSquare n g \<Longrightarrow> 0 \<le> y \<Longrightarrow> y < n \<Longrightarrow> 0 \<le> x \<Longrightarrow> x < n \<Longrightarrow>
     readCell g y x = Some (cell g y x)"
  using gridSquare_row [of n g y]
  by (simp add: readCell_def cell_def gridSquare_def)

lemma writeCell_square:
  "gridSquare n g \<Longrightarrow> 0 \<le> y \<Longrightarrow> y < n \<Longrightarrow> 0 \<le> x \<Longrightarrow> x < n \<Longrightarrow>
     writeCell g y x v = Some (putCell g y x v)"
  using gridSquare_row [of n g y]
  by (simp add: writeCell_def putCell_def gridSquare_def)

lemma gridSquare_putCell:
  "gridSquare n g \<Longrightarrow> gridSquare n (putCell g y x v)"
  by (cases "nat y < length g") (auto simp: gridSquare_def putCell_def list_all_length nth_list_update)

lemma cell_putCell:
  "gridSquare n g \<Longrightarrow> 0 \<le> y \<Longrightarrow> y < n \<Longrightarrow> 0 \<le> x \<Longrightarrow> x < n \<Longrightarrow>
   0 \<le> y' \<Longrightarrow> y' < n \<Longrightarrow> 0 \<le> x' \<Longrightarrow> x' < n \<Longrightarrow>
     cell (putCell g y x v) y' x' = (if y' = y \<and> x' = x then v else cell g y' x')"
  using gridSquare_row [of n g y]
  by (auto simp: cell_def putCell_def gridSquare_def nth_list_update)

lemma grid_eqI:
  assumes "gridSquare n g" "gridSquare n h"
    and "\<And>y x. 0 \<le> y \<Longrightarrow> y < n \<Longrightarrow> 0 \<le> x \<Longrightarrow> x < n \<Longrightarrow> cell g y x = cell h y x"
  shows "g = h"
proof (rule nth_equalityI)
  show "length g = length h" using assms(1,2) by (simp add: gridSquare_def)
next
  fix i assume i: "i < length g"
  with assms(1) have in': "0 \<le> int i" "int i < n" by (simp_all add: gridSquare_def)
  have lg: "length (g ! i) = nat n" using gridSquare_row [OF assms(1) in'] by simp
  have lh: "length (h ! i) = nat n" using gridSquare_row [OF assms(2) in'] by simp
  show "g ! i = h ! i"
  proof (rule nth_equalityI)
    show "length (g ! i) = length (h ! i)" using lg lh by simp
  next
    fix j assume "j < length (g ! i)"
    with lg have jn: "0 \<le> int j" "int j < n" by simp_all
    from assms(3) [OF in' jn] show "g ! i ! j = h ! i ! j" by (simp add: cell_def)
  qed
qed

lemma forEach_invariant:
  assumes "I s"
    and "\<And>i s. i \<in> set is \<Longrightarrow> I s \<Longrightarrow> \<exists>s'. body i s = Some s' \<and> I s'"
  shows "\<exists>s'. forEach is body s = Some s' \<and> I s'"
  using assms
proof (induction "is" arbitrary: s)
  case Nil
  then show ?case by simp
next
  case (Cons i "is")
  from Cons.prems(2) [of i s] Cons.prems(1) obtain s1 where s1: "body i s = Some s1" "I s1"
    by auto
  from Cons.IH [OF s1(2)] Cons.prems(2) obtain s2 where "forEach is body s1 = Some s2" "I s2"
    by auto
  with s1 show ?case by simp
qed

lemma forEach_progress_aux:
  assumes "distinct is" "D \<inter> set is = {}" "I D s"
    and "\<And>i D s. i \<in> set is \<Longrightarrow> i \<notin> D \<Longrightarrow> I D s \<Longrightarrow> \<exists>s'. body i s = Some s' \<and> I (insert i D) s'"
  shows "\<exists>s'. forEach is body s = Some s' \<and> I (D \<union> set is) s'"
  using assms
proof (induction "is" arbitrary: D s)
  case Nil
  then show ?case by simp
next
  case (Cons i "is")
  from Cons.prems have "i \<notin> D" by auto
  with Cons.prems(4) [of i D s] Cons.prems(3)
  obtain s1 where s1: "body i s = Some s1" "I (insert i D) s1" by auto
  from Cons.prems have d: "distinct is" "insert i D \<inter> set is = {}" by auto
  have "\<exists>s'. forEach is body s1 = Some s' \<and> I (insert i D \<union> set is) s'"
  proof (rule Cons.IH [OF d s1(2)])
    fix j D' s'
    assume "j \<in> set is" "j \<notin> D'" "I D' s'"
    with Cons.prems(4) [of j D' s'] show "\<exists>s''. body j s' = Some s'' \<and> I (insert j D') s''"
      by simp
  qed
  with s1 show ?case by simp
qed

lemma forEach_progress:
  assumes "distinct is" "I {} s"
    and "\<And>i D s. i \<in> set is \<Longrightarrow> i \<notin> D \<Longrightarrow> I D s \<Longrightarrow> \<exists>s'. body i s = Some s' \<and> I (insert i D) s'"
  shows "\<exists>s'. forEach is body s = Some s' \<and> I (set is) s'"
  using forEach_progress_aux [of "is" "{}" I s body] assms by simp

lemma maskedOn_cong:
  assumes "\<And>y x. 0 \<le> y \<Longrightarrow> y < Size qr \<Longrightarrow> 0 \<le> x \<Longrightarrow> x < Size qr \<Longrightarrow> P y x = P' y x"
  shows "maskedOn msk P qr q = maskedOn msk P' qr q"
  using assms by (auto simp: maskedOn_def)

lemma maskedOn_start:
  "wellFormed qr \<Longrightarrow> maskedOn msk (\<lambda>y x. False) qr qr"
  by (auto simp: maskedOn_def wellFormed_def intro: exI [of _ "Modules qr"])

lemma applyMaskCell_step:
  assumes wf: "wellFormed qr" and inv: "maskedOn msk P qr q"
    and rng: "0 \<le> y" "y < Size qr" "0 \<le> x" "x < Size qr" and fresh: "\<not> P y x"
  shows "\<exists>q'. applyMaskCell msk y x q = Some q' \<and>
           maskedOn msk (\<lambda>y' x'. P y' x' \<or> (y' = y \<and> x' = x)) qr q'"
proof -
  from inv obtain g where q: "q = qr\<lparr>Modules := g\<rparr>" and sq: "gridSquare (Size qr) g"
    and cells: "\<And>y x. 0 \<le> y \<Longrightarrow> y < Size qr \<Longrightarrow> 0 \<le> x \<Longrightarrow> x < Size qr \<Longrightarrow>
       cell g y x = (if P y x then maskedCell msk qr y x else cell (Modules qr) y x)"
    by (auto simp: maskedOn_def)
  from wf have sqf: "gridSquare (Size qr) (IsFunction qr)" by (simp add: wellFormed_def)
  have rf: "readCell (IsFunction qr) y x = Some (cell (IsFunction qr) y x)"
    using readCell_square [OF sqf rng] .
  have rm: "readCell g y x = Some (cell g y x)"
    using readCell_square [OF sq rng] .
  have here: "cell g y x = cell (Modules qr) y x" using cells [OF rng] fresh by simp
  show ?thesis
  proof (cases "\<not> cell (IsFunction qr) y x \<and> shouldMask x y msk")
    case False
    then have "applyMaskCell msk y x q = Some q"
      using q by (auto simp: applyMaskCell_def rf)
    moreover have "maskedOn msk (\<lambda>y' x'. P y' x' \<or> (y' = y \<and> x' = x)) qr q"
      unfolding maskedOn_def
    proof (intro conjI allI impI)
      show "\<exists>g. q = qr\<lparr>Modules := g\<rparr>" using q by blast
      show "gridSquare (Size qr) (Modules q)" using sq q by simp
    next
      fix y' x' assume r: "0 \<le> y' \<and> y' < Size qr \<and> 0 \<le> x' \<and> x' < Size qr"
      then have c: "cell g y' x' = (if P y' x' then maskedCell msk qr y' x' else cell (Modules qr) y' x')"
        using cells by simp
      show "cell (Modules q) y' x' =
          (if P y' x' \<or> (y' = y \<and> x' = x) then maskedCell msk qr y' x' else cell (Modules qr) y' x')"
        using c False here q by (auto simp: maskedCell_def)
    qed
    ultimately show ?thesis by blast
  next
    case True
    have w: "writeCell g y x (\<not> cell g y x) = Some (putCell g y x (\<not> cell g y x))"
      using writeCell_square [OF sq rng] .
    from True have "applyMaskCell msk y x q = Some (q\<lparr>Modules := putCell g y x (\<not> cell g y x)\<rparr>)"
      using q w by (simp add: applyMaskCell_def rf rm)
    moreover have "maskedOn msk (\<lambda>y' x'. P y' x' \<or> (y' = y \<and> x' = x)) qr
        (q\<lparr>Modules := putCell g y x (\<not> cell g y x)\<rparr>)"
      unfolding maskedOn_def
    proof (intro conjI allI impI)
      show "\<exists>g'. q\<lparr>Modules := putCell g y x (\<not> cell g y x)\<rparr> = qr\<lparr>Modules := g'\<rparr>"
        using q by (intro exI [of _ "putCell g y x (\<not> cell g y x)"]) simp
      show "gridSquare (Size qr) (Modules (q\<lparr>Modules := putCell g y x (\<not> cell g y x)\<rparr>))"
        using gridSquare_putCell [OF sq] by simp
    next
      fix y' x' assume r: "0 \<le> y' \<and> y' < Size qr \<and> 0 \<le> x' \<and> x' < Size qr"
      then have c: "cell g y' x' = (if P y' x' then maskedCell msk qr y' x' else cell (Modules qr) y' x')"
        using cells by simp
      from r have p: "cell (putCell g y x (\<not> cell g y x)) y' x' =
          (if y' = y \<and> x' = x then \<not> cell g y x else cell g y' x')"
        using cell_putCell [OF sq rng, of y' x'] by simp
      show "cell (Modules (q\<lparr>Modules := putCell g y x (\<not> cell g y x)\<rparr>)) y' x' =
          (if P y' x' \<or> (y' = y \<and> x' = x) then maskedCell msk qr y' x' else cell (Modules qr) y' x')"
        using c p True here fresh by (auto simp: maskedCell_def)
    qed
    ultimately show ?thesis by blast
  qed
qed

lemma set_upto_range: "i \<in> set [0..n - 1] \<longleftrightarrow> 0 \<le> i \<and> i < n"
  by auto

lemma applyMask_row:
  assumes wf: "wellFormed qr" and inv: "maskedOn msk (\<lambda>y' x'. y' \<in> D) qr q"
    and rng: "0 \<le> y" "y < Size qr" and fresh: "y \<notin> D"
  shows "\<exists>q'. forEach [0..Size qr - 1] (\<lambda>x. applyMaskCell msk y x) q = Some q' \<and>
           maskedOn msk (\<lambda>y' x'. y' \<in> insert y D) qr q'"
proof -
  let ?I = "\<lambda>Dx q. maskedOn msk (\<lambda>y' x'. y' \<in> D \<or> (y' = y \<and> x' \<in> Dx)) qr q"
  have start: "?I {} q" using inv by simp
  have step: "\<exists>s'. applyMaskCell msk y i s = Some s' \<and> ?I (insert i Dx) s'"
    if "i \<in> set [0..Size qr - 1]" "i \<notin> Dx" "?I Dx s" for i Dx s
  proof -
    from that(1) have ir: "0 \<le> i" "i < Size qr" by auto
    from that(2) fresh have nP: "\<not> (y \<in> D \<or> (y = y \<and> i \<in> Dx))" by simp
    from applyMaskCell_step [OF wf that(3) rng ir nP]
    obtain q' where q': "applyMaskCell msk y i s = Some q'"
      "maskedOn msk (\<lambda>y' x'. (y' \<in> D \<or> (y' = y \<and> x' \<in> Dx)) \<or> (y' = y \<and> x' = i)) qr q'"
      by blast
    have "?I (insert i Dx) q' = maskedOn msk (\<lambda>y' x'. (y' \<in> D \<or> (y' = y \<and> x' \<in> Dx)) \<or> (y' = y \<and> x' = i)) qr q'"
      by (rule maskedOn_cong) auto
    with q' show ?thesis by blast
  qed
  from forEach_progress [of "[0..Size qr - 1]" ?I q "\<lambda>x. applyMaskCell msk y x", OF distinct_upto start step]
  obtain q' where q': "forEach [0..Size qr - 1] (\<lambda>x. applyMaskCell msk y x) q = Some q'"
    "?I (set [0..Size qr - 1]) q'"
    by blast
  have "maskedOn msk (\<lambda>y' x'. y' \<in> insert y D) qr q' = ?I (set [0..Size qr - 1]) q'"
    by (rule maskedOn_cong) auto
  with q' show ?thesis by blast
qed

lemma applyMask_masked:
  assumes wf: "wellFormed qr"
  shows "\<exists>q. applyMask msk qr = Some q \<and> maskedOn msk (\<lambda>y x. True) qr q"
proof -
  let ?I = "\<lambda>D q. maskedOn msk (\<lambda>y' x'. y' \<in> D) qr q"
  have start: "?I {} qr" using maskedOn_start [OF wf] by simp
  have step: "\<exists>s'. forEach [0..Size qr - 1] (\<lambda>x. applyMaskCell msk i x) s = Some s' \<and> ?I (insert i D) s'"
    if "i \<in> set [0..Size qr - 1]" "i \<notin> D" "?I D s" for i D s
  proof -
    from that(1) have ir: "0 \<le> i" "i < Size qr" by auto
    from applyMask_row [OF wf that(3) ir that(2)] show ?thesis .
  qed
  from forEach_progress [of "[0..Size qr - 1]" ?I qr
      "\<lambda>y. forEach [0..Size qr - 1] (\<lambda>x. applyMaskCell msk y x)", OF distinct_upto start step]
  obtain q' where q': "applyMask msk qr = Some q'" "?I (set [0..Size qr - 1]) q'"
    unfolding applyMask_def by blast
  have "maskedOn msk (\<lambda>y x. True) qr q' = ?I (set [0..Size qr - 1]) q'"
    by (rule maskedOn_cong) auto
  with q' show ?thesis by blast
qed

lemma maskedOn_wellFormed:
  "wellFormed qr \<Longrightarrow> maskedOn msk P qr q \<Longrightarrow> wellFormed q"
  by (auto simp: maskedOn_def wellFormed_def)

lemma applyMask_twice:
  assumes wf: "wellFormed qr"
  shows "\<exists>q1. applyMask msk qr = Some q1 \<and> wellFormed q1 \<and> applyMask msk q1 = Some qr"
proof -
  from applyMask_masked [OF wf] obtain q1 where
    a1: "applyMask msk qr = Some q1" and m1: "maskedOn msk (\<lambda>y x. True) qr q1"
    by blast
  have wf1: "wellFormed q1" using maskedOn_wellFormed [OF wf m1] .
  from applyMask_masked [OF wf1] obtain q2 where
    a2: "applyMask msk q1 = Some q2" and m2: "maskedOn msk (\<lambda>y x. True) q1 q2"
    by blast
  from m1 obtain g1 where q1: "q1 = qr\<lparr>Modules := g1\<rparr>" by (auto simp: maskedOn_def)
  from m2 obtain g2 where q2: "q2 = q1\<lparr>Modules := g2\<rparr>" by (auto simp: maskedOn_def)
  from m1 q1 have c1: "cell g1 y x = maskedCell msk qr y x"
    if "0 \<le> y" "y < Size qr" "0 \<le> x" "x < Size qr" for y x
    using that by (simp add: maskedOn_def)
  from m2 q1 q2 have c2: "cell g2 y x = maskedCell msk q1 y x"
    if "0 \<le> y" "y < Size qr" "0 \<le> x" "x < Size qr" for y x
    using that by (simp add: maskedOn_def)
  have sq2: "gridSquare (Size qr) g2" using m2 q1 q2 by (simp add: maskedOn_def)
  have sq0: "gridSquare (Size qr) (Modules qr)" using wf by (simp add: wellFormed_def)
  have "g2 = Modules qr"
  proof (rule grid_eqI [OF sq2 sq0])
    fix y x assume r: "0 \<le> y" "y < Size qr" "0 \<le> x" "x < Size qr"
    from c2 [OF r] c1 [OF r] q1 show "cell g2 y x = cell (Modules qr) y x"
      by (auto simp: maskedCell_def)
  qed
  with q1 q2 have "q2 = qr" by simp
  with a1 a2 wf1 show ?thesis by simp
qed

lemma applyMask_frame:
  assumes wf: "wellFormed qr"
  shows "\<exists>q. applyMask msk qr = Some q \<and> wellFormed q \<and> Size q = Size qr \<and>
           IsFunction q = IsFunction qr \<and>
           (\<forall>y x. 0 \<le> y \<and> y < Size qr \<and> 0 \<le> x \<and> x < Size qr \<and> cell (IsFunction qr) y x \<longrightarrow>
              cell (Modules q) y x = cell (Modules qr) y x)"
proof -
  from applyMask_masked [OF wf] obtain q where
    a: "applyMask msk qr = Some q" and m: "maskedOn msk (\<lambda>y x. True) qr q"
    by blast
  from m obtain g where q: "q = qr\<lparr>Modules := g\<rparr>" by (auto simp: maskedOn_def)
  have "cell (Modules q) y x = cell (Modules qr) y x"
    if "0 \<le> y \<and> y < Size qr \<and> 0 \<le> x \<and> x < Size qr \<and> cell (IsFunction qr) y x" for y x
    using m that by (simp add: maskedOn_def maskedCell_def)
  with a q maskedOn_wellFormed [OF wf m] show ?thesis by auto
qed

lemma forEach_fold:
  assumes "\<And>i s. i \<in> set is \<Longrightarrow> body i s = Some (f i s)"
  shows "forEach is body s = Some (fold f is s)"
  using assms by (induction "is" arbitrary: s) simp_all

lemma fold_scan_upto:
  assumes "1 \<le> k" "k \<le> int (length row)"
  shows "fold (\<lambda>x. scanStep (row ! nat x) (row ! nat (x - 1))) [k..int (length row) - 1] s =
         scanList (row ! nat (k - 1)) (drop (nat k) row) s"
  using assms
proof (induction "nat (int (length row) - k)" arbitrary: k s)
  case 0
  then have "k = int (length row)" by simp
  then show ?case by simp
next
  case (Suc d)
  then have lt: "k < int (length row)" by simp
  then have up: "[k..int (length row) - 1] = k # [k + 1..int (length row) - 1]"
    by (simp add: upto_rec1)
  from lt Suc.prems have dr: "drop (nat k) row = row ! nat k # drop (nat (k + 1)) row"
    by (simp add: Cons_nth_drop_Suc nat_add_distrib)
  have d: "d = nat (int (length row) - (k + 1))" using Suc.hyps(2) by simp
  from Suc.hyps(1) [OF d, of "scanStep (row ! nat k) (row ! nat (k - 1)) s"] lt Suc.prems
  show ?case by (simp add: up dr)
qed

lemma scanList_runs:
  assumes "scanList v cells (p, c) = (p', c')" "0 \<le> c"
  shows "p' + runScore (nat c') =
         p + sum_list (map runScore
               ((nat c + length (takeWhile (\<lambda>b. b = v) cells)) #
                 maximalRuns (dropWhile (\<lambda>b. b = v) cells))) \<and> 0 \<le> c'"
  using assms
proof (induction cells arbitrary: v p c)
  case Nil
  then show ?case by simp
next
  case (Cons a as)
  show ?case
  proof (cases "a = v")
    case True
    with Cons.prems have "scanList v as (p, c + 1) = (p', c')"
      by (simp add: scanStep_def)
    from Cons.IH [OF this] Cons.prems(2) True show ?thesis
      by (simp add: nat_add_distrib)
  next
    case False
    let ?p = "if c \<ge> 5 then p + (3 + (c - 5)) else p"
    from False Cons.prems have "scanList a as (?p, 1) = (p', c')"
      by (simp add: scanStep_def)
    from Cons.IH [OF this] have
      "p' + runScore (nat c') = ?p + sum_list (map runScore
          ((nat 1 + length (takeWhile (\<lambda>b. b = a) as)) # maximalRuns (dropWhile (\<lambda>b. b = a) as)))"
      and c': "0 \<le> c'"
      by simp_all
    moreover have "?p = p + runScore (nat c)" using Cons.prems(2) by (auto simp: runScore_def)
    ultimately show ?thesis using False c' by simp
  qed
qed

lemma scanList_row:
  assumes "scanList v cells (p, 1) = (p', c')"
  shows "(if c' \<ge> 5 then p' + (3 + (c' - 5)) else p') = p + referenceRowScore (v # cells)"
proof -
  from scanList_runs [OF assms] have
    e: "p' + runScore (nat c') = p + referenceRowScore (v # cells)" and c': "0 \<le> c'"
    by (simp_all add: referenceRowScore_def)
  have "(if c' \<ge> 5 then p' + (3 + (c' - 5)) else p') = p' + runScore (nat c')"
    using c' by (auto simp: runScore_def)
  with e show ?thesis by simp
qed

lemma penaltyCell_pure:
  assumes sq: "gridSquare n g" "Modules qr = g" and rng: "0 \<le> y" "y < n" "1 \<le> x" "x < n"
  shows "penaltyCell qr y x s =
         Some (scanStep (g ! nat y ! nat x) (g ! nat y ! nat (x - 1)) s)"
proof -
  from rng have r1: "0 \<le> x" "0 \<le> x - 1" "x - 1 < n" by simp_all
  have a: "readCell g y x = Some (g ! nat y ! nat x)"
    using readCell_square [OF sq(1) rng(1,2) r1(1) rng(4)] by (simp add: cell_def)
  have b: "readCell g y (x - 1) = Some (g ! nat y ! nat (x - 1))"
    using readCell_square [OF sq(1) rng(1,2) r1(2,3)] by (simp add: cell_def)
  show ?thesis
    by (cases s) (simp add: penaltyCell_def sq(2) a b scanStep_def)
qed

lemma penaltyRow_ref:
  assumes wf: "wellFormed qr" and rng: "0 \<le> y" "y < Size qr"
  shows "penaltyRow qr y p = Some (p + referenceRowScore (Modules qr ! nat y))"
proof -
  let ?row = "Modules qr ! nat y"
  from wf have sq: "gridSquare (Size qr) (Modules qr)" by (simp add: wellFormed_def)
  have len: "int (length ?row) = Size qr" using gridSquare_row [OF sq rng] rng by simp
  have "forEach [1..Size qr - 1] (penaltyCell qr y) (p, 1) =
        Some (fold (\<lambda>x. scanStep (?row ! nat x) (?row ! nat (x - 1))) [1..Size qr - 1] (p, 1))"
  proof (rule forEach_fold)
    fix i s assume "i \<in> set [1..Size qr - 1]"
    then have "1 \<le> i" "i < Size qr" by auto
    from penaltyCell_pure [OF sq refl rng this]
    show "penaltyCell qr y i s = Some (scanStep (?row ! nat i) (?row ! nat (i - 1)) s)" .
  qed
  moreover have "fold (\<lambda>x. scanStep (?row ! nat x) (?row ! nat (x - 1))) [1..Size qr - 1] (p, 1) =
      scanList (?row ! nat (1 - 1)) (drop (nat 1) ?row) (p, 1)"
    using fold_scan_upto [of 1 ?row "(p, 1)"] len rng by simp
  moreover have ne: "?row = ?row ! 0 # drop 1 ?row"
    using len rng by (cases ?row) simp_all
  obtain p' c' where sc: "scanList (?row ! 0) (drop 1 ?row) (p, 1) = (p', c')"
    by (cases "scanList (?row ! 0) (drop 1 ?row) (p, 1)") blast
  from scanList_row [OF sc] ne
  have "(if c' \<ge> 5 then p' + (3 + (c' - 5)) else p') = p + referenceRowScore ?row"
    by simp
  ultimately show ?thesis using sc by (simp add: penaltyRow_def)
qed

lemma fold_sum_upto:
  assumes "0 \<le> k" "k \<le> int (length g)"
  shows "fold (\<lambda>y p. p + h (g ! nat y)) [k..int (length g) - 1] (p::int) =
         p + sum_list (map h (drop (nat k) g))"
  using assms
proof (induction "nat (int (length g) - k)" arbitrary: k p)
  case 0
  then have "k = int (length g)" by simp
  then show ?case by simp
next
  case (Suc d)
  then have lt: "k < int (length g)" by simp
  then have up: "[k..int (length g) - 1] = k # [k + 1..int (length g) - 1]"
    by (simp add: upto_rec1)
  from lt Suc.prems have dr: "drop (nat k) g = g ! nat k # drop (nat (k + 1)) g"
    by (simp add: Cons_nth_drop_Suc nat_add_distrib)
  have d: "d = nat (int (length g) - (k + 1))" using Suc.hyps(2) by simp
  from Suc.hyps(1) [OF d, of "p + h (g ! nat k)"] lt Suc.prems
  show ?case by (simp add: up dr)
qed

lemma calculatePenalty_ref:
  assumes wf: "wellFormed qr"
  shows "calculatePenalty qr = Some (referencePenalty (Modules qr))"
proof -
  from wf have len: "int (length (Modules qr)) = Size qr"
    by (simp add: wellFormed_def gridSquare_def)
  have "forEach [0..Size qr - 1] (penaltyRow qr) 0 =
        Some (fold (\<lambda>y p. p + referenceRowScore (Modules qr ! nat y)) [0..Size qr - 1] 0)"
  proof (rule forEach_fold)
    fix i s assume "i \<in> set [0..Size qr - 1]"
    then have "0 \<le> i" "i < Size qr" by auto
    from penaltyRow_ref [OF wf this]
    show "penaltyRow qr i s = Some (s + referenceRowScore (Modules qr ! nat i))" .
  qed
  moreover have "fold (\<lambda>y p. p + referenceRowScore (Modules qr ! nat y)) [0..Size qr - 1] 0 =
      0 + sum_list (map referenceRowScore (drop (nat 0) (Modules qr)))"
    using fold_sum_upto [of 0 "Modules qr" referenceRowScore 0] len by simp
  ultimately show ?thesis by (simp add: calculatePenalty_def referencePenalty_def)
qed

lemma sum_maximalRuns: "sum_list (maximalRuns row) = length row"
proof (induction row rule: maximalRuns.induct)
  case 1
  then show ?case by simp
next
  case (2 v cells)
  have "length (takeWhile (\<lambda>c. c = v) cells) + length (dropWhile (\<lambda>c. c = v) cells) = length cells"
    by (metis length_append takeWhile_dropWhile_id)
  with 2 show ?case by simp
qed

lemma runScore_bounds: "0 \<le> runScore r \<and> runScore r \<le> int r"
  by (simp add: runScore_def)

lemma referenceRowScore_bounds:
  "0 \<le> referenceRowScore row \<and> referenceRowScore row \<le> int (length row)"
proof -
  have "0 \<le> sum_list (map runScore rs) \<and> sum_list (map runScore rs) \<le> int (sum_list rs)" for rs
  proof (induction rs)
    case Nil
    then show ?case by simp
  next
    case (Cons r rs)
    with runScore_bounds [of r] show ?case by simp
  qed
  from this [of "maximalRuns row"] show ?thesis
    by (simp add: referenceRowScore_def sum_maximalRuns)
qed

lemma referencePenalty_bounds:
  assumes "gridSquare n g"
  shows "0 \<le> referencePenalty g \<and> referencePenalty g \<le> int (length g) * n"
proof -
  from assms have rows: "\<forall>r \<in> set g. int (length r) \<le> n"
    by (auto simp: gridSquare_def list_all_iff)
  have "0 \<le> sum_list (map referenceRowScore rs) \<and>
        sum_list (map referenceRowScore rs) \<le> int (length rs) * n"
    if "\<forall>r \<in> set rs. int (length r) \<le> n" for rs
    using that
  proof (induction rs)
    case Nil
    then show ?case by simp
  next
    case (Cons r rs)
    from referenceRowScore_bounds [of r] Cons.prems
    have "0 \<le> referenceRowScore r" "referenceRowScore r \<le> n" by auto
    with Cons show ?case by (simp add: algebra_simps)
  qed
  from this [OF rows] show ?thesis by (simp add: referencePenalty_def)
qed

lemma maskPenalty_total:
  assumes wf: "wellFormed qr"
  shows "\<exists>p. maskPenalty qr msk = Some p \<and> 0 \<le> p \<and> p \<le> Size qr * Size qr"
proof -
  from applyMask_twice [OF wf] obtain q1 where
    a: "applyMask msk qr = Some q1" and wf1: "wellFormed q1" by blast
  from applyMask_frame [OF wf, of msk] a have sz: "Size q1 = Size qr" by auto
  from wf1 sz have sq: "gridSquare (Size qr) (Modules q1)" by (simp add: wellFormed_def)
  then have len: "int (length (Modules q1)) = Size qr" using wf
    by (simp add: gridSquare_def wellFormed_def)
  from referencePenalty_bounds [OF sq] len calculatePenalty_ref [OF wf1] a
  show ?thesis by (simp add: maskPenalty_def)
qed

lemma pickStep_apply:
  "pickStep pen k (b, bp, q) = (if pen k < bp then (k, pen k, q) else (b, bp, q))"
  by (simp add: pickStep_def)

lemma findBestMaskStep_pure:
  assumes wf: "wellFormed qr" and p: "maskPenalty qr msk = Some (pen msk)"
  shows "findBestMaskStep msk (b, bp, qr) = Some (pickStep pen msk (b, bp, qr))"
proof -
  from applyMask_twice [OF wf] obtain q1 where
    a: "applyMask msk qr = Some q1" "applyMask msk q1 = Some qr" by blast
  with p have "calculatePenalty q1 = Some (pen msk)" by (simp add: maskPenalty_def)
  with a show ?thesis by (simp add: findBestMaskStep_def pickStep_def)
qed

lemma forEach_fold_inv:
  assumes "I s" and "\<And>i s. i \<in> set is \<Longrightarrow> I s \<Longrightarrow> body i s = Some (f i s) \<and> I (f i s)"
  shows "forEach is body s = Some (fold f is s)"
  using assms by (induction "is" arbitrary: s) simp_all

lemma pickStep_fold:
  assumes "fold (pickStep pen) ks (b0, p0, q) = (b, p, q')" "sorted ks" "distinct ks"
  shows "q' = q \<and> p \<le> p0 \<and> (\<forall>k \<in> set ks. p \<le> pen k) \<and>
         ((b = b0 \<and> p = p0) \<or>
          (b \<in> set ks \<and> pen b = p \<and> p < p0 \<and> (\<forall>k \<in> set ks. k < b \<longrightarrow> p < pen k)))"
  using assms
proof (induction ks arbitrary: b0 p0)
  case Nil
  then show ?case by simp
next
  case (Cons k ks)
  from Cons.prems(2,3) have s: "sorted ks" "distinct ks" by simp_all
  have first: "\<forall>k' \<in> set ks. k < k'"
  proof
    fix k' assume "k' \<in> set ks"
    with Cons.prems(2,3) have "k \<le> k'" "k \<noteq> k'" by auto
    then show "k < k'" by simp
  qed
  show ?case
  proof (cases "pen k < p0")
    case True
    with Cons.prems(1) have "fold (pickStep pen) ks (k, pen k, q) = (b, p, q')"
      by (simp add: pickStep_apply)
    from Cons.IH [OF this s] True first show ?thesis by auto
  next
    case False
    with Cons.prems(1) have "fold (pickStep pen) ks (b0, p0, q) = (b, p, q')"
      by (simp add: pickStep_apply)
    from Cons.IH [OF this s] False first show ?thesis by auto
  qed
qed

lemma frameInv_start: "wellFormed qr \<Longrightarrow> frameInv qr (b, qr)"
  by (simp add: frameInv_def wellFormed_def)

lemma frameInv_put:
  assumes wf: "wellFormed qr" and inv: "frameInv qr (b, qr\<lparr>Modules := g\<rparr>)"
    and rng: "0 \<le> y" "y < Size qr" "0 \<le> x" "x < Size qr"
    and nf: "\<not> cell (IsFunction qr) y x"
  shows "frameInv qr (b', qr\<lparr>Modules := putCell g y x v\<rparr>)"
proof -
  from inv have sq: "gridSquare (Size qr) g"
    and cells: "\<And>y x. 0 \<le> y \<and> y < Size qr \<and> 0 \<le> x \<and> x < Size qr \<and> cell (IsFunction qr) y x \<Longrightarrow>
           cell g y x = cell (Modules qr) y x"
    by (auto simp: frameInv_def)
  have "cell (putCell g y x v) y' x' = cell (Modules qr) y' x'"
    if r: "0 \<le> y' \<and> y' < Size qr \<and> 0 \<le> x' \<and> x' < Size qr \<and> cell (IsFunction qr) y' x'" for y' x'
  proof -
    from r nf have "\<not> (y' = y \<and> x' = x)" by auto
    with cell_putCell [OF sq rng, of y' x' v] r cells [OF r] show ?thesis by simp
  qed
  with gridSquare_putCell [OF sq] show ?thesis
    unfolding frameInv_def by simp
qed

lemma addDataCell_frame:
  assumes wf: "wellFormed qr" and inv: "frameInv qr st"
  shows "\<exists>st'. addDataCell data x y st = Some st' \<and> frameInv qr st'"
proof -
  obtain b q where st: "st = (b, q)" by (cases st)
  define g where "g = Modules q"
  from inv st have q: "q = qr\<lparr>Modules := g\<rparr>" and sq: "gridSquare (Size qr) g"
    by (simp_all add: frameInv_def g_def)
  from wf have sqf: "gridSquare (Size qr) (IsFunction qr)" by (simp add: wellFormed_def)
  show ?thesis
  proof (cases "inBounds q x y")
    case False
    then show ?thesis using inv st by (simp add: addDataCell_def)
  next
    case True
    then have rng: "0 \<le> y" "y < Size qr" "0 \<le> x" "x < Size qr"
      using q by (simp_all add: inBounds_def)
    have rf: "readCell (IsFunction qr) y x = Some (cell (IsFunction qr) y x)"
      using readCell_square [OF sqf rng] .
    show ?thesis
    proof (cases "cell (IsFunction qr) y x")
      case f: True
      then show ?thesis using True inv st q by (simp add: addDataCell_def rf)
    next
      case f: False
      have sm: "setModule x y v (qr\<lparr>Modules := g\<rparr>) = Some (qr\<lparr>Modules := putCell g y x v\<rparr>)"
        for v
        using True q writeCell_square [OF sq rng, of v] by (simp add: setModule_def)
      from inv st q have inv': "frameInv qr (b, qr\<lparr>Modules := g\<rparr>)" by simp
      note put = frameInv_put [OF wf inv' rng f]
      show ?thesis
      proof (cases "b < int (length data) * 8")
        case True
        then show ?thesis using \<open>inBounds q x y\<close> f st q put [where b' = "b + 1"]
          by (simp add: addDataCell_def rf sm)
      next
        case False
        then show ?thesis using \<open>inBounds q x y\<close> f st q put [where b' = b and v = False]
          by (simp add: addDataCell_def rf sm)
      qed
    qed
  qed
qed

lemma addDataRow_frame:
  assumes wf: "wellFormed qr" and inv: "frameInv qr st"
  shows "\<exists>st'. addDataRow data n col i st = Some st' \<and> frameInv qr st'"
  unfolding addDataRow_def Let_def
  by (rule forEach_invariant [where I = "frameInv qr", OF inv]) (rule addDataCell_frame [OF wf])

lemma addDataCols_frame:
  assumes wf: "wellFormed qr"
  shows "frameInv qr st \<Longrightarrow> \<exists>st'. addDataCols data n col st = Some st' \<and> frameInv qr st'"
proof (induction data n col st rule: addDataCols.induct)
  case (1 data n col st)
  show ?case
  proof (cases "col \<ge> 0")
    case False
    with "1.prems" show ?thesis by (simp add: addDataCols.simps [of data n col st])
  next
    case True
    have "\<exists>st'. forEach [0..n - 1] (addDataRow data n (skipTiming col)) st = Some st' \<and> frameInv qr st'"
      by (rule forEach_invariant [where I = "frameInv qr", OF "1.prems"])
        (rule addDataRow_frame [OF wf])
    then obtain st1 where
      r: "forEach [0..n - 1] (addDataRow data n (skipTiming col)) st = Some st1" "frameInv qr st1"
      by blast
    from "1.IH" [OF True r] obtain st2 where
      "addDataCols data n (skipTiming col - 2) st1 = Some st2" "frameInv qr st2"
      by blast
    with True r show ?thesis by (simp add: addDataCols.simps [of data n col st])
  qed
qed

lemma addData_frame:
  assumes wf: "wellFormed qr"
  shows "\<exists>q. addData data qr = Some q \<and> IsFunction q = IsFunction qr \<and>
           (\<forall>y x. 0 \<le> y \<and> y < Size qr \<and> 0 \<le> x \<and> x < Size qr \<and> cell (IsFunction qr) y x \<longrightarrow>
              cell (Modules q) y x = cell (Modules qr) y x)"
proof -
  from addDataCols_frame [OF wf frameInv_start [OF wf], of data "Size qr" "Size qr - 1" 0]
  obtain st where st: "addDataCols data (Size qr) (Size qr - 1) (0, qr) = Some st" "frameInv qr st"
    by blast
  from st(2) have g: "snd st = qr\<lparr>Modules := Modules (snd st)\<rparr>"
    "\<forall>y x. 0 \<le> y \<and> y < Size qr \<and> 0 \<le> x \<and> x < Size qr \<and> cell (IsFunction qr) y x \<longrightarrow>
           cell (Modules (snd st)) y x = cell (Modules qr) y x"
    by (simp_all add: frameInv_def)
  from g(1) have "IsFunction (snd st) = IsFunction (qr\<lparr>Modules := Modules (snd st)\<rparr>)" by simp
  then have "IsFunction (snd st) = IsFunction qr" by simp
  moreover from st(1) have "addData data qr = Some (snd st)" by (simp add: addData_def)
  ultimately show ?thesis using g(2) by simp
qed

lemma findBestMask_fold:
  assumes wf: "wellFormed qr"
  shows "forEach [0..7] findBestMaskStep (0, MaxInt32, qr) =
         Some (fold (pickStep (\<lambda>k. the (maskPenalty qr k))) [0..7] (0, MaxInt32, qr))"
proof (rule forEach_fold_inv [where I = "\<lambda>s. snd (snd s) = qr"])
  show "snd (snd (0, MaxInt32, qr)) = qr" by simp
next
  fix i :: int and s :: "int \<times> int \<times> QRCode"
  assume "snd (snd s) = qr"
  then obtain b bp where s: "s = (b, bp, qr)" by (cases s) auto
  from maskPenalty_total [OF wf, of i]
  have p: "maskPenalty qr i = Some (the (maskPenalty qr i))" by auto
  from findBestMaskStep_pure [OF wf, of i "\<lambda>k. the (maskPenalty qr k)", OF p, of b bp]
  show "findBestMaskStep i s = Some (pickStep (\<lambda>k. the (maskPenalty qr k)) i s) \<and>
        snd (snd (pickStep (\<lambda>k. the (maskPenalty qr k)) i s)) = qr"
    by (simp add: s pickStep_apply)
qed

section \<open>Properties of the encoder\<close>

lemma testBit_shift: "(drop_bit i (v::int) AND 1 \<noteq> 0) = bit v i"
  by (simp add: bit_iff_and_drop_bit_eq_1 and_one_eq)

lemma fold_update_rev:
  assumes "k \<le> n"
  shows "fold (\<lambda>i bits. bits[n - 1 - i := g i]) [0..<k] (replicate n False) =
         map (\<lambda>j. if n - k \<le> j then g (n - 1 - j) else False) [0..<n]"
  using assms
proof (induction k)
  case 0
  show ?case by (rule nth_equalityI) simp_all
next
  case (Suc k)
  then have ih: "fold (\<lambda>i bits. bits[n - 1 - i := g i]) [0..<k] (replicate n False) =
         map (\<lambda>j. if n - k \<le> j then g (n - 1 - j) else False) [0..<n]"
    by simp
  have "fold (\<lambda>i bits. bits[n - 1 - i := g i]) [0..<Suc k] (replicate n False) =
        (fold (\<lambda>i bits. bits[n - 1 - i := g i]) [0..<k] (replicate n False))[n - 1 - k := g k]"
    by simp
  also have "\<dots> = (map (\<lambda>j. if n - k \<le> j then g (n - 1 - j) else False) [0..<n])[n - 1 - k := g k]"
    by (simp only: ih)
  also have "\<dots> = map (\<lambda>j. if n - Suc k \<le> j then g (n - 1 - j) else False) [0..<n]"
    by (rule nth_equalityI) (use Suc.prems in \<open>auto simp: nth_list_update\<close>)
  finally show ?case .
qed

lemma intToBits_bits: "intToBits v n = map (\<lambda>j. bit v (n - 1 - j)) [0..<n]"
  using fold_update_rev [of n n "\<lambda>i. bit v i"]
  by (simp add: intToBits_def testBit_shift)

lemma length_intToBits: "length (intToBits v n) = n"
  by (simp add: intToBits_bits)

lemma fold_append_concat:
  "fold (\<lambda>b bits. bits @ f b) data bits0 = bits0 @ concat (map f data)"
  by (induction data arbitrary: bits0) simp_all

lemma padToByte_aligned: "length bits mod 8 = 0 \<Longrightarrow> padToByte bits = bits"
  by (simp add: padToByte.simps [of bits])

lemma padBytes_cycle:
  "0 \<le> k \<Longrightarrow> padBytes ! nat (k smod 2) = (if even k then 0xEC else 0x11)"
proof -
  assume "0 \<le> k"
  then have "k smod 2 = k mod 2" by (simp add: signed_modulo_int_def sgn_if)
  then show ?thesis by (cases "even k") (simp_all add: padBytes_def odd_iff_mod_2_eq_one)
qed

lemma addPadBytes_fill:
  assumes "int (length bits) + 8 * int m = maxBits" "0 \<le> k"
  shows "addPadBytes maxBits k bits =
         bits @ concat (map (\<lambda>j. intToBits (uint (if even (k + int j) then 0xEC else 0x11 :: 8 word)) 8)
                          [0..<m])"
  using assms
proof (induction m arbitrary: bits k)
  case 0
  then show ?case by (simp add: addPadBytes.simps [of maxBits k bits])
next
  case (Suc m)
  let ?b = "bits @ intToBits (uint (padBytes ! nat (k smod 2))) 8"
  from Suc.prems have lt: "int (length bits) < maxBits" by simp
  from Suc.prems have len: "int (length ?b) + 8 * int m = maxBits"
    by (simp add: length_intToBits)
  from Suc.prems have k1: "0 \<le> k + 1" by simp
  have sh: "map (\<lambda>j. intToBits (uint (if even (k + int j) then 0xEC else 0x11 :: 8 word)) 8) [0..<Suc m] =
      intToBits (uint (if even k then 0xEC else 0x11 :: 8 word)) 8 #
      map (\<lambda>j. intToBits (uint (if even (k + 1 + int j) then 0xEC else 0x11 :: 8 word)) 8) [0..<m]"
    by (simp add: upt_conv_Cons map_Suc_upt [symmetric] add.commute add.left_commute del: upt_Suc)
  have "addPadBytes maxBits k bits = addPadBytes maxBits (k + 1) ?b"
    using lt by (simp add: addPadBytes.simps [of maxBits k bits])
  also have "\<dots> = ?b @ concat (map (\<lambda>j. intToBits (uint (if even (k + 1 + int j) then 0xEC else 0x11 :: 8 word)) 8) [0..<m])"
    by (rule Suc.IH [OF len k1])
  finally show ?case
    using Suc.prems(2) by (simp only: sh padBytes_cycle concat.simps append_assoc)
qed

lemma bit_fold_or:
  assumes "k \<le> 8"
  shows "bit (fold (\<lambda>j b. if c j then b OR push_bit (7 - j) 1 else b) [0..<k] (0::8 word)) n \<longleftrightarrow>
         (n < 8 \<and> 7 - n < k \<and> c (7 - n))"
  using assms
proof (induction k)
  case 0
  then show ?case by simp
next
  case (Suc k)
  then have ih: "bit (fold (\<lambda>j b. if c j then b OR push_bit (7 - j) 1 else b) [0..<k] (0::8 word)) n \<longleftrightarrow>
         (n < 8 \<and> 7 - n < k \<and> c (7 - n))"
    by simp
  have p: "bit (push_bit (7 - k) (1::8 word)) n \<longleftrightarrow> n < 8 \<and> 7 - n = k"
    using Suc.prems by (auto simp: bit_exp_iff)
  have "fold (\<lambda>j b. if c j then b OR push_bit (7 - j) 1 else b) [0..<Suc k] (0::8 word) =
      (if c k then fold (\<lambda>j b. if c j then b OR push_bit (7 - j) 1 else b) [0..<k] (0::8 word) OR
                   push_bit (7 - k) 1
       else fold (\<lambda>j b. if c j then b OR push_bit (7 - j) 1 else b) [0..<k] (0::8 word))"
    by simp
  then show ?case
    by (cases "c k") (auto simp only: bit_or_iff ih p less_Suc_eq if_True if_False)
qed

lemma bits_of_collected_byte:
  "map (\<lambda>j. bit (fold (\<lambda>j b. if c j then b OR push_bit (7 - j) 1 else b) [0..<8] (0::8 word)) (7 - j))
     [0..<8] = map c [0..<8]"
proof (rule map_cong [OF refl])
  fix j assume "j \<in> set [0..<8]"
  then have "j < 8" by simp
  then have "7 - (7 - j) = j" by simp
  moreover have "7 - j < 8" by simp
  ultimately show "bit (fold (\<lambda>j b. if c j then b OR push_bit (7 - j) 1 else b) [0..<8] (0::8 word)) (7 - j) = c j"
    using \<open>j < 8\<close> by (simp only: bit_fold_or [of 8, OF order_refl] simp_thms)
qed

lemma concat_chunks:
  "8 * m \<le> length xs \<Longrightarrow>
     concat (map (\<lambda>i. map (\<lambda>j. xs ! (i * 8 + j)) [0..<8]) [0..<m]) = take (8 * m) xs"
proof (induction m)
  case 0
  then show ?case by simp
next
  case (Suc m)
  have "map (\<lambda>j. xs ! (m * 8 + j)) [0..<8] = take 8 (drop (8 * m) xs)"
    by (rule nth_equalityI) (use Suc.prems in \<open>auto simp: mult.commute\<close>)
  moreover have "take (8 * Suc m) xs = take (8 * m) xs @ take 8 (drop (8 * m) xs)"
    by (simp add: take_add [symmetric] add.commute)
  ultimately show ?case using Suc by simp
qed

lemma bytesToBits_bitsToBytes:
  assumes "length bits mod 8 = 0"
  shows "bytesToBits (bitsToBytes bits) = bits"
proof -
  have "bytesToBits (bitsToBytes bits) =
        concat (map (\<lambda>i. map (\<lambda>j. bits ! (i * 8 + j)) [0..<8]) [0..<length bits div 8])"
    unfolding bytesToBits_def bitsToBytes_def map_map comp_def
    by (simp only: bits_of_collected_byte)
  also have "\<dots> = take (8 * (length bits div 8)) bits"
    by (rule concat_chunks) simp
  also have "\<dots> = bits"
  proof -
    from assms have "8 * (length bits div 8) = length bits" by presburger
    then show ?thesis by simp
  qed
  finally show ?thesis .
qed

lemma length_bitsToBytes: "length (bitsToBytes bits) = length bits div 8"
  by (simp add: bitsToBytes_def)

lemma intToBits_byte: "intToBits (uint (b :: 8 word)) 8 = map (\<lambda>j. bit b (7 - j)) [0..<8]"
proof -
  have "7 - x < (8::nat)" for x by arith
  then show ?thesis by (simp add: intToBits_bits bit_uint_iff)
qed

lemma bytesToBits_intToBits:
  "concat (map (\<lambda>b. intToBits (uint b) 8) (bs :: 8 word list)) = bytesToBits bs"
  by (simp add: bytesToBits_def intToBits_byte)

lemma length_bytesToBits: "length (bytesToBits bs) = 8 * length bs"
  by (induction bs) (simp_all add: bytesToBits_def)

lemma encodeBits_layout:
  assumes cap: "getDataCapacity qr \<ge> int (length (Data qr)) + 3"
  shows "encodeBits qr =
         [False, True, False, False] @ intToBits (int (length (Data qr))) 8 @
         bytesToBits (Data qr) @ replicate 4 False @
         bytesToBits (map (\<lambda>k. if even k then 0xEC else 0x11)
           [0..<nat (getDataCapacity qr) - (length (Data qr) + 2)])"
    (is "_ = ?mode @ ?len @ ?data @ ?term @ ?pad")
proof -
  let ?bits3 = "?mode @ ?len @ ?data"
  let ?bits4 = "?bits3 @ ?term"
  let ?m = "nat (getDataCapacity qr) - (length (Data qr) + 2)"
  have l3: "int (length ?bits3) = 12 + 8 * int (length (Data qr))"
    by (simp add: length_intToBits length_bytesToBits)
  have b3: "fold (\<lambda>b bits. bits @ intToBits (uint b) 8) (Data qr) (?mode @ ?len) = ?bits3"
    by (simp add: fold_append_concat bytesToBits_intToBits)
  have tl: "min 4 (getDataCapacity qr * 8 - int (length ?bits3)) = 4"
    using cap l3 by simp
  have l4: "length ?bits4 = 8 * (length (Data qr) + 2)"
    by (simp add: length_intToBits length_bytesToBits)
  then have al: "length ?bits4 mod 8 = 0" by simp
  have fill: "int (length ?bits4) + 8 * int ?m = getDataCapacity qr * 8"
    using cap l4 by simp
  have pad: "concat (map (\<lambda>j. intToBits (uint (if even (0 + int j) then 0xEC else 0x11 :: 8 word)) 8) [0..<?m]) = ?pad"
    by (simp add: bytesToBits_intToBits [symmetric] comp_def)
  have "encodeBits qr = addPadBytes (getDataCapacity qr * 8) 0
      (padToByte (?bits3 @ replicate (nat (min 4 (getDataCapacity qr * 8 - int (length ?bits3)))) False))"
    by (simp only: encodeBits_def Let_def append_Nil b3)
  also have "\<dots> = addPadBytes (getDataCapacity qr * 8) 0 (padToByte ?bits4)"
    by (simp only: tl nat_numeral)
  also have "\<dots> = addPadBytes (getDataCapacity qr * 8) 0 ?bits4"
    by (simp only: padToByte_aligned [OF al])
  also have "\<dots> = ?bits4 @ ?pad"
    by (simp only: addPadBytes_fill [OF fill order_refl] pad)
  finally show ?thesis by simp
qed

lemma encodeBits_length:
  assumes cap: "getDataCapacity qr \<ge> int (length (Data qr)) + 3"
  shows "length (encodeBits qr) = 8 * nat (getDataCapacity qr)"
  using cap unfolding encodeBits_layout [OF cap]
  by (simp add: length_intToBits length_bytesToBits)

lemma versionLoop_10_Low:
  assumes "259 \<le> r" "r \<le> 271"
  shows "versionLoop r 1 = (10, Low)"
  using assms
  by (simp add: versionLoop.simps [of r 1] versionLoop.simps [of r 2] versionLoop.simps [of r 3]
      versionLoop.simps [of r 4] versionLoop.simps [of r 5] versionLoop.simps [of r 6]
      versionLoop.simps [of r 7] versionLoop.simps [of r 8] versionLoop.simps [of r 9]
      versionLoop.simps [of r 10] capacityAt_def versionCapacity_def)

lemma foldl_bits_acc:
  "foldl (\<lambda>n b. 2 * n + (if b then 1 else 0)) a bits =
   a * 2 ^ length bits + foldl (\<lambda>n b. 2 * n + (if b then 1 else 0)) (0::nat) bits"
proof (induction bits arbitrary: a)
  case Nil
  then show ?case by simp
next
  case (Cons b bits)
  from Cons [of "2 * a + (if b then 1 else 0)"] Cons [of "if b then 1 else 0"]
  show ?case by (simp add: algebra_simps)
qed

lemma bitsToNat_Cons: "bitsToNat (b # bits) = (if b then 2 ^ length bits else 0) + bitsToNat bits"
  using foldl_bits_acc [of "if b then 1 else 0" bits] by (simp add: bitsToNat_def)

lemma bitsToNat_intToBits: "bitsToNat (intToBits v n) = nat (take_bit n v)"
proof (induction n)
  case 0
  then show ?case by (simp add: intToBits_bits bitsToNat_def)
next
  case (Suc n)
  have "map (\<lambda>j. bit v (Suc n - 1 - j)) [0..<Suc n] = bit v n # map (\<lambda>j. bit v (n - 1 - j)) [0..<n]"
    by (simp add: upt_conv_Cons map_Suc_upt [symmetric] del: upt_Suc)
  then have "intToBits v (Suc n) = bit v n # intToBits v n"
    by (simp only: intToBits_bits)
  then have "bitsToNat (intToBits v (Suc n)) = (if bit v n then 2 ^ n else 0) + nat (take_bit n v)"
    using Suc by (simp add: bitsToNat_Cons length_intToBits)
  also have "\<dots> = nat (take_bit (Suc n) v)"
    by (simp add: take_bit_Suc_from_most nat_add_distrib)
  finally show ?case .
qed

lemma encodeData_layout:
  assumes cap: "getDataCapacity qr \<ge> int (length (Data qr)) + 3"
  shows "length (encodeData qr) = nat (getDataCapacity qr) \<and>
         bytesToBits (encodeData qr) =
           [False, True, False, False] @ intToBits (int (length (Data qr))) 8 @
           bytesToBits (Data qr) @ replicate 4 False @
           bytesToBits (map (\<lambda>k. if even k then 0xEC else 0x11)
             [0..<nat (getDataCapacity qr) - (length (Data qr) + 2)])"
proof -
  have al: "length (encodeBits qr) mod 8 = 0" using encodeBits_length [OF cap] by simp
  have "length (encodeData qr) = nat (getDataCapacity qr)"
    using encodeBits_length [OF cap] by (simp add: encodeData_def length_bitsToBytes)
  moreover have "bytesToBits (encodeData qr) = encodeBits qr"
    unfolding encodeData_def by (rule bytesToBits_bitsToBytes [OF al])
  ultimately show ?thesis using encodeBits_layout [OF cap] by simp
qed

section \<open>Properties of the format information\<close>

lemma forEach_upto_invariant:
  assumes "I a s"
    and "\<And>i s. a \<le> i \<Longrightarrow> i \<le> b \<Longrightarrow> I i s \<Longrightarrow> \<exists>s'. body i s = Some s' \<and> I (i + 1) s'"
    and "a \<le> b + 1"
  shows "\<exists>s'. forEach [a..b] body s = Some s' \<and> I (b + 1) s'"
  using assms
proof (induction "nat (b + 1 - a)" arbitrary: a s)
  case 0
  then have "a = b + 1" by simp
  with "0.prems"(1) show ?case by simp
next
  case (Suc d)
  then have le: "a \<le> b" by simp
  then have up: "[a..b] = a # [a + 1..b]" by (simp add: upto_rec1)
  from Suc.prems(2) [OF order_refl le Suc.prems(1)] obtain s1 where
    s1: "body a s = Some s1" "I (a + 1) s1" by blast
  have d: "d = nat (b + 1 - (a + 1))" using Suc.hyps(2) by simp
  have "\<exists>s'. forEach [a + 1..b] body s1 = Some s' \<and> I (b + 1) s'"
  proof (rule Suc.hyps(1) [OF d s1(2)])
    fix i s' assume "a + 1 \<le> i" "i \<le> b" "I i s'"
    with Suc.prems(2) [of i s'] show "\<exists>s''. body i s' = Some s'' \<and> I (i + 1) s''" by simp
  next
    from le show "a + 1 \<le> b + 1" by simp
  qed
  with s1 up show ?case by simp
qed

lemma setModule_inside:
  assumes "wellFormed q" "inBounds q x y"
  shows "setModule x y v q = Some (q\<lparr>Modules := putCell (Modules q) y x v\<rparr>)"
  using assms writeCell_square [of "Size q" "Modules q" y x v]
  by (simp add: setModule_def wellFormed_def inBounds_def)

lemma setFunction_inside:
  assumes "wellFormed q" "inBounds q x y"
  shows "setFunction x y v q = Some (q\<lparr>IsFunction := putCell (IsFunction q) y x v\<rparr>)"
  using assms writeCell_square [of "Size q" "IsFunction q" y x v]
  by (simp add: setFunction_def wellFormed_def inBounds_def)

lemma wellFormed_putModules:
  "wellFormed q \<Longrightarrow> wellFormed (q\<lparr>Modules := putCell (Modules q) y x v\<rparr>)"
  by (simp add: wellFormed_def gridSquare_putCell)

lemma wellFormed_putFunction:
  "wellFormed q \<Longrightarrow> wellFormed (q\<lparr>IsFunction := putCell (IsFunction q) y x v\<rparr>)"
  by (simp add: wellFormed_def gridSquare_putCell)

lemma cell_putModules:
  assumes "wellFormed q" "inBounds q x y" "inBounds q x' y'"
  shows "cell (putCell (Modules q) y x v) y' x' =
         (if y' = y \<and> x' = x then v else cell (Modules q) y' x')"
  using assms cell_putCell [of "Size q" "Modules q" y x y' x' v]
  by (simp add: wellFormed_def inBounds_def)

lemma cell_putFunction:
  assumes "wellFormed q" "inBounds q x y" "inBounds q x' y'"
  shows "cell (putCell (IsFunction q) y x v) y' x' =
         (if y' = y \<and> x' = x then v else cell (IsFunction q) y' x')"
  using assms cell_putCell [of "Size q" "IsFunction q" y x y' x' v]
  by (simp add: wellFormed_def inBounds_def)

lemma mark_props:
  assumes "wellFormed q" "inBounds q x y"
  shows "wellFormed (mark x y v q)" "Size (mark x y v q) = Size q"
    "\<And>x' y'. inBounds q x' y' \<Longrightarrow> cell (Modules (mark x y v q)) y' x' =
         (if y' = y \<and> x' = x then v else cell (Modules q) y' x')"
    "\<And>x' y'. inBounds q x' y' \<Longrightarrow> cell (IsFunction (mark x y v q)) y' x' =
         (if y' = y \<and> x' = x then True else cell (IsFunction q) y' x')"
  using assms cell_putModules [OF assms] cell_putFunction [OF assms]
  by (simp_all add: mark_def wellFormed_def gridSquare_putCell)

lemma set_then_mark:
  assumes "wellFormed q" "inBounds q x y"
  shows "Option.bind (setModule x y v q) (setFunction x y True) = Some (mark x y v q)"
proof -
  have w: "wellFormed (q\<lparr>Modules := putCell (Modules q) y x v\<rparr>)"
    using wellFormed_putModules [OF assms(1)] .
  have i: "inBounds (q\<lparr>Modules := putCell (Modules q) y x v\<rparr>) x y"
    using assms(2) by (simp add: inBounds_def)
  show ?thesis
    by (simp add: setModule_inside [OF assms] setFunction_inside [OF w i] mark_def)
qed

lemma mark_once:
  assumes "wellFormed q" "inBounds q x y"
  shows "do { q1 \<leftarrow> setModule x y v q; setFunction x y True q1 } = Some (mark x y v q)"
  using set_then_mark [OF assms] by simp

lemma mark_twice:
  assumes wf: "wellFormed q" and a: "inBounds q ax ay" and b: "inBounds q bx by"
  shows "do { q1 \<leftarrow> setModule ax ay v q;
              q2 \<leftarrow> setModule bx by v q1;
              q3 \<leftarrow> setFunction ax ay True q2;
              setFunction bx by True q3 } = Some (mark bx by v (mark ax ay v q))"
proof -
  let ?q1 = "q\<lparr>Modules := putCell (Modules q) ay ax v\<rparr>"
  let ?q2 = "?q1\<lparr>Modules := putCell (Modules ?q1) by bx v\<rparr>"
  let ?q3 = "?q2\<lparr>IsFunction := putCell (IsFunction ?q2) ay ax True\<rparr>"
  let ?q4 = "?q3\<lparr>IsFunction := putCell (IsFunction ?q3) by bx True\<rparr>"
  have w1: "wellFormed ?q1" using wellFormed_putModules [OF wf] .
  have w2: "wellFormed ?q2" using wellFormed_putModules [OF w1] .
  have w3: "wellFormed ?q3" using wellFormed_putFunction [OF w2] .
  have i1: "inBounds ?q1 bx by" using b by (simp add: inBounds_def)
  have i2: "inBounds ?q2 ax ay" using a by (simp add: inBounds_def)
  have i3: "inBounds ?q3 bx by" using b by (simp add: inBounds_def)
  have s1: "setModule ax ay v q = Some ?q1" using setModule_inside [OF wf a] .
  have s2: "setModule bx by v ?q1 = Some ?q2" using setModule_inside [OF w1 i1] .
  have s3: "setFunction ax ay True ?q2 = Some ?q3" using setFunction_inside [OF w2 i2] .
  have s4: "setFunction bx by True ?q3 = Some ?q4" using setFunction_inside [OF w3 i3] .
  have "?q4 = mark bx by v (mark ax ay v q)" by (simp add: mark_def)
  then show ?thesis by (simp only: s1 s2 s3 s4 bind.simps)
qed

lemma formatBitStep_marks:
  assumes wf: "wellFormed q" and n: "17 \<le> Size q" and i: "0 \<le> i" "i \<le> 14"
  shows "formatBitStep f i q = Some
    (if i < 6 then mark i 8 (formatBit f i) (mark 8 i (formatBit f i) q)
     else if i = 6 then mark 7 8 (formatBit f i) (mark 8 7 (formatBit f i) q)
     else if i = 7 then mark 8 8 (formatBit f i) q
     else if i = 8 then mark 7 8 (formatBit f i) q
     else mark 8 (Size q - 15 + i) (formatBit f i) (mark (14 - i) 8 (formatBit f i) q))"
proof -
  have sz: "Size (q\<lparr>Modules := g\<rparr>) = Size q" for g by simp
  consider "i < 6" | "i = 6" | "i = 7" | "i = 8" | "9 \<le> i" using i by linarith
  then show ?thesis
  proof cases
    case 1
    have a: "inBounds q 8 i" and b: "inBounds q i 8" using 1 i n by (simp_all add: inBounds_def)
    from 1 mark_twice [OF wf a b] show ?thesis by (simp add: formatBitStep_def Let_def)
  next
    case 2
    have a: "inBounds q 8 7" and b: "inBounds q 7 8" using n by (simp_all add: inBounds_def)
    from 2 mark_twice [OF wf a b] show ?thesis by (simp add: formatBitStep_def Let_def)
  next
    case 3
    have a: "inBounds q 8 8" using n by (simp add: inBounds_def)
    from 3 mark_once [OF wf a] show ?thesis by (simp add: formatBitStep_def Let_def)
  next
    case 4
    have a: "inBounds q 7 8" using n by (simp add: inBounds_def)
    from 4 mark_once [OF wf a] show ?thesis by (simp add: formatBitStep_def Let_def)
  next
    case 5
    have a: "inBounds q (14 - i) 8" and b: "inBounds q 8 (Size q - 15 + i)"
      using 5 i n by (simp_all add: inBounds_def)
    have s1: "setModule (14 - i) 8 v q = Some (q\<lparr>Modules := putCell (Modules q) 8 (14 - i) v\<rparr>)" for v
      using setModule_inside [OF wf a] .
    from 5 have br: "\<not> i < 6" "i \<noteq> 6" "i \<noteq> 7" "i \<noteq> 8" by simp_all
    have "formatBitStep f i q =
        do { q1 \<leftarrow> setModule (14 - i) 8 (formatBit f i) q;
             q2 \<leftarrow> setModule 8 (Size q - 15 + i) (formatBit f i) q1;
             q3 \<leftarrow> setFunction (14 - i) 8 True q2;
             setFunction 8 (Size q - 15 + i) True q3 }"
    proof -
      have "setFunction 8 (Size q3 - 15 + i) True q3 = setFunction 8 (Size q - 15 + i) True q3"
        if "setFunction (14 - i) 8 True q2 = Some q3"
          "setModule 8 (Size q - 15 + i) (formatBit f i) (q\<lparr>Modules := putCell (Modules q) 8 (14 - i) (formatBit f i)\<rparr>) = Some q2"
        for q2 q3
      proof -
        from that(2) have "Size q2 = Size q"
          by (auto simp: setModule_def split: if_splits)
        with that(1) have "Size q3 = Size q"
          by (auto simp: setFunction_def split: if_splits)
        then show ?thesis by simp
      qed
      then show ?thesis
        by (auto simp: formatBitStep_def Let_def br s1 split: Option.bind_splits)
    qed
    with 5 br mark_twice [OF wf a b] show ?thesis by simp
  qed
qed

lemma inBounds_mark: "inBounds (mark x y v q) x' y' = inBounds q x' y'"
  by (simp add: inBounds_def mark_def)

lemma wellFormed_mark: "wellFormed q \<Longrightarrow> wellFormed (mark x y v q)"
  by (simp add: mark_def wellFormed_def gridSquare_putCell)

lemma Size_mark: "Size (mark x y v q) = Size q"
  by (simp add: mark_def)

lemma cell_mark_M:
  "wellFormed q \<Longrightarrow> inBounds q x y \<Longrightarrow> inBounds q x' y' \<Longrightarrow>
     cell (Modules (mark x y v q)) y' x' = (if y' = y \<and> x' = x then v else cell (Modules q) y' x')"
  using mark_props(3) [of q x y x' y' v] by simp

lemma cell_mark_F:
  "wellFormed q \<Longrightarrow> inBounds q x y \<Longrightarrow> inBounds q x' y' \<Longrightarrow>
     cell (IsFunction (mark x y v q)) y' x' = (if y' = y \<and> x' = x then True else cell (IsFunction q) y' x')"
  using mark_props(4) [of q x y x' y' v] by simp

lemmas mark_simps = inBounds_mark wellFormed_mark Size_mark cell_mark_M cell_mark_F

lemma formatBitStep_inv:
  assumes inv: "fmtInv f n i q" and n: "17 \<le> n" and i: "0 \<le> i" "i \<le> 14"
  shows "\<exists>q'. formatBitStep f i q = Some q' \<and> fmtInv f n (i + 1) q'"
proof -
  from inv have wf: "wellFormed q" and sz: "Size q = n" by (simp_all add: fmtInv_def)
  from n sz have n': "17 \<le> Size q" by simp
  note step = formatBitStep_marks [OF wf n' i, of f]
  have ib: "inBounds q x y" if "0 \<le> x" "x < n" "0 \<le> y" "y < n" for x y
    using that sz by (simp add: inBounds_def)
  consider "i < 6" | "i = 6" | "i = 7" | "i = 8" | "9 \<le> i" using i by linarith
  then have "fmtInv f n (i + 1) (the (formatBitStep f i q))"
  proof cases
    case 1
    with inv n i wf sz show ?thesis
      unfolding step fmtInv_def
      by (auto simp: mark_simps ib)
  next
    case 2
    with inv n i wf sz show ?thesis
      unfolding step fmtInv_def
      by (auto simp: mark_simps ib)
  next
    case 3
    with inv n i wf sz show ?thesis
      unfolding step fmtInv_def
      by (auto simp: mark_simps ib)
  next
    case 4
    with inv n i wf sz show ?thesis
      unfolding step fmtInv_def
      by (auto simp: mark_simps ib)
  next
    case 5
    with inv n i wf sz show ?thesis
      unfolding step fmtInv_def
      by (auto simp: mark_simps ib)
  qed
  with step show ?thesis by simp
qed

lemma length_formatInfos_row: "length (formatInfos ! levelIndex el) = 8"
  by (cases el) (simp_all add: formatInfos_def)

lemma addFormatInfo_inv:
  assumes wf: "wellFormed qr" and n: "17 \<le> Size qr" and m: "0 \<le> Mask qr" "Mask qr < 8"
  shows "\<exists>q. addFormatInfo qr = Some q \<and>
           fmtInv (formatInfos ! levelIndex (QRCode.ErrorLevel qr) ! nat (Mask qr)) (Size qr) 15 q \<and>
           cell (Modules q) (Size qr - 8) 8 \<and> cell (IsFunction q) (Size qr - 8) 8"
proof -
  let ?f = "formatInfos ! levelIndex (QRCode.ErrorLevel qr) ! nat (Mask qr)"
  let ?n = "Size qr"
  have fi: "formatInfoOf qr = Some ?f"
    using m by (simp add: formatInfoOf_def length_formatInfos_row)
  have start: "fmtInv ?f ?n 0 qr" using wf by (auto simp: fmtInv_def)
  have "\<exists>q1. forEach [0..14] (formatBitStep ?f) qr = Some q1 \<and> fmtInv ?f ?n (14 + 1) q1"
  proof (rule forEach_upto_invariant [where I = "fmtInv ?f ?n", OF start])
    fix i s assume "0 \<le> i" "i \<le> 14" "fmtInv ?f ?n i s"
    from formatBitStep_inv [OF this(3) n this(1,2)]
    show "\<exists>s'. formatBitStep ?f i s = Some s' \<and> fmtInv ?f ?n (i + 1) s'" .
  qed simp
  then obtain q1 where q1: "forEach [0..14] (formatBitStep ?f) qr = Some q1" "fmtInv ?f ?n 15 q1"
    by auto
  from q1(2) have wf1: "wellFormed q1" and sz1: "Size q1 = ?n" by (simp_all add: fmtInv_def)
  have ib: "inBounds q1 x y" if "0 \<le> x" "x < ?n" "0 \<le> y" "y < ?n" for x y
    using that sz1 by (simp add: inBounds_def)
  have dark: "inBounds q1 8 (?n - 8)" using n by (intro ib) simp_all
  have sm: "setModule 8 (?n - 8) True q1 = Some (q1\<lparr>Modules := putCell (Modules q1) (?n - 8) 8 True\<rparr>)"
    using setModule_inside [OF wf1 dark] .
  have last: "do { q2 \<leftarrow> setModule 8 (Size q1 - 8) True q1; setFunction 8 (Size q2 - 8) True q2 } =
      Some (mark 8 (?n - 8) True q1)"
    using mark_once [OF wf1 dark, of True] by (simp add: sz1 sm)
  have res: "addFormatInfo qr = Some (mark 8 (?n - 8) True q1)"
    using fi q1(1) last by (simp add: addFormatInfo_def)
  have "fmtInv ?f ?n 15 (mark 8 (?n - 8) True q1)"
    using q1(2) n wf1 sz1 dark unfolding fmtInv_def
    by (auto simp: mark_simps ib)
  moreover have "cell (Modules (mark 8 (?n - 8) True q1)) (?n - 8) 8"
    "cell (IsFunction (mark 8 (?n - 8) True q1)) (?n - 8) 8"
    using wf1 dark by (simp_all add: mark_simps)
  ultimately show ?thesis using res by simp
qed

section \<open>Claims about the sizer and the factory\<close>

text \<open>
  C1. For every payload length \<open>L\<close> the sizer fails (version \<open>-1\<close>, and the
  factory's too-long error for a non-empty payload of that length) exactly when
  \<open>L + 3 > 271\<close>; otherwise it returns a version in 1..10 and a level whose capacity
  is at least \<open>L + 3\<close>, no smaller version has any sufficient level, and no
  stronger level of the chosen version is sufficient.
\<close>

theorem sizer_smallest_version_strongest_level:
  assumes "determineVersionAndErrorLevel L = (v, el)"
  shows "(v = - 1 \<longleftrightarrow> L + 3 > 271) \<and>
         (\<forall>url. url \<noteq> [] \<and> int (length url) = L \<longrightarrow>
            (NewQRCode url = Inl (URLTooLong L) \<longleftrightarrow> L + 3 > 271) \<and>
            (L + 3 \<le> 271 \<longrightarrow> (\<exists>qr. NewQRCode url = Inr qr \<and> Version qr = v \<and>
                 QRCode.ErrorLevel qr = el))) \<and>
         (v \<noteq> - 1 \<longrightarrow>
            1 \<le> v \<and> v \<le> 10 \<and> capacityAt v el \<ge> L + 3 \<and>
            (\<forall>v' el'. 1 \<le> v' \<and> v' \<le> 10 \<and> capacityAt v' el' \<ge> L + 3 \<longrightarrow> v \<le> v') \<and>
            (\<forall>el'. capacityAt v el' \<ge> L + 3 \<longrightarrow> levelIndex el' \<le> levelIndex el))"
proof -
  from assms have loop: "versionLoop (L + 3) 1 = (v, el)"
    by (simp add: determineVersionAndErrorLevel_def)
  have all_levels: "e \<in> set [High, Quartile, Medium, Low]" for e
    by (cases e) simp_all
  have found: "1 \<le> v \<and> v \<le> 10 \<and> capacityAt v el \<ge> L + 3 \<and>
      (\<forall>v' el'. 1 \<le> v' \<and> v' \<le> 10 \<and> capacityAt v' el' \<ge> L + 3 \<longrightarrow> v \<le> v') \<and>
      (\<forall>el'. capacityAt v el' \<ge> L + 3 \<longrightarrow> levelIndex el' \<le> levelIndex el)"
    if ne: "v \<noteq> - 1"
  proof -
    from versionLoop_found [OF loop ne]
    have rng: "1 \<le> v" "v \<le> 10"
      and hit: "levelLoop (L + 3) v [High, Quartile, Medium, Low] = Some el"
      and miss: "\<And>v'. 1 \<le> v' \<Longrightarrow> v' < v \<Longrightarrow>
                   levelLoop (L + 3) v' [High, Quartile, Medium, Low] = None"
      by simp_all
    have "v \<le> v'" if "1 \<le> v'" "capacityAt v' el' \<ge> L + 3" for v' el'
    proof (rule ccontr)
      assume "\<not> v \<le> v'"
      with that miss have "levelLoop (L + 3) v' [High, Quartile, Medium, Low] = None"
        by simp
      from levelLoop_None [OF this] all_levels [of el'] have "capacityAt v' el' < L + 3"
        by blast
      with that show False by simp
    qed
    moreover from levelLoop_Some [OF hit] have "capacityAt v el \<ge> L + 3" by simp
    moreover have "levelIndex el' \<le> levelIndex el" if "capacityAt v el' \<ge> L + 3" for el'
      using levelLoop_strongest [OF hit that] .
    ultimately show ?thesis using rng by blast
  qed
  have fail_iff: "v = - 1 \<longleftrightarrow> L + 3 > 271"
  proof
    assume "v = - 1"
    with loop have "versionLoop (L + 3) 1 = (- 1, el)" by simp
    from versionLoop_fail [OF this]
    have "levelLoop (L + 3) 10 [High, Quartile, Medium, Low] = None" by simp
    from levelLoop_None [OF this] have "capacityAt 10 Low < L + 3" by simp
    then show "L + 3 > 271" by (simp add: capacityAt_10_Low)
  next
    assume big: "L + 3 > 271"
    show "v = - 1"
    proof (rule ccontr)
      assume ne: "v \<noteq> - 1"
      from found [OF ne] have "1 \<le> v" "v \<le> 10" "capacityAt v el \<ge> L + 3" by simp_all
      with capacityAt_le_271 [of v el] big show False by simp
    qed
  qed
  have factory: "(NewQRCode url = Inl (URLTooLong L) \<longleftrightarrow> L + 3 > 271) \<and>
      (L + 3 \<le> 271 \<longrightarrow> (\<exists>qr. NewQRCode url = Inr qr \<and> Version qr = v \<and>
           QRCode.ErrorLevel qr = el))"
    if "url \<noteq> []" "int (length url) = L" for url
    using that assms fail_iff
    by (auto simp: NewQRCode_def isValidURL_def initializeGrids_def Let_def)
  from found fail_iff factory show ?thesis by blast
qed

theorem sizer_smallest_version_strongest_level_witness:
  "determineVersionAndErrorLevel 39 = (3, Medium) \<and>
   \<not> ((39::int) + 3 > 271) \<and>
   NewQRCode (replicate 39 CHR ''a'') \<noteq> Inl (URLTooLong 39) \<and>
   (\<exists>qr. NewQRCode (replicate 39 CHR ''a'') = Inr qr \<and> Version qr = 3 \<and>
      QRCode.ErrorLevel qr = Medium) \<and>
   capacityAt 3 Medium \<ge> 39 + 3 \<and>
   \<not> capacityAt 2 Low \<ge> 39 + 3 \<and>
   \<not> capacityAt 3 Quartile \<ge> 39 + 3"
proof -
  have sel: "determineVersionAndErrorLevel 39 = (3, Medium)"
    by (simp add: determineVersionAndErrorLevel_def versionLoop.simps [of 42]
        capacityAt_def versionCapacity_def)
  have len: "replicate 39 CHR ''a'' \<noteq> [] \<and> int (length (replicate 39 CHR ''a'')) = 39"
    by simp
  note main = sizer_smallest_version_strongest_level [OF sel]
  from main len have fac: "NewQRCode (replicate 39 CHR ''a'') \<noteq> Inl (URLTooLong 39) \<and>
      (\<exists>qr. NewQRCode (replicate 39 CHR ''a'') = Inr qr \<and> Version qr = 3 \<and>
         QRCode.ErrorLevel qr = Medium)"
    by simp
  have ne: "(3::int) \<noteq> - 1" by simp
  from main ne have core: "1 \<le> (3::int) \<and> (3::int) \<le> 10 \<and> capacityAt 3 Medium \<ge> 39 + 3 \<and>
      (\<forall>v' el'. 1 \<le> v' \<and> v' \<le> 10 \<and> capacityAt v' el' \<ge> 39 + 3 \<longrightarrow> 3 \<le> v') \<and>
      (\<forall>el'. capacityAt 3 el' \<ge> 39 + 3 \<longrightarrow> levelIndex el' \<le> levelIndex Medium)"
    by blast
  from core have c1: "capacityAt 3 Medium \<ge> 39 + 3" by blast
  from core have "1 \<le> (2::int) \<and> (2::int) \<le> 10 \<and> capacityAt 2 Low \<ge> 39 + 3 \<longrightarrow> (3::int) \<le> 2"
    by blast
  then have c2: "\<not> capacityAt 2 Low \<ge> 39 + 3" by simp
  from core have "capacityAt 3 Quartile \<ge> 39 + 3 \<longrightarrow> levelIndex Quartile \<le> levelIndex Medium"
    by blast
  then have c3: "\<not> capacityAt 3 Quartile \<ge> 39 + 3" by simp
  show ?thesis using sel fac c1 c2 c3 by simp
qed

text \<open>
  C8. The payload \<open>http://localhost:8080\<close> is 21 bytes long (the design document
  counts 22, required capacity 25). For the payload, and for a length of 22 as well, every
  level of version 1 and the levels High and Quartile of version 2 are too small, and the
  sizer selects version 2 with level Medium.
\<close>

theorem scenario_localhost_version2_medium:
  "length ''http://localhost:8080'' = 21 \<and>
   capacityAt 1 High < int (length ''http://localhost:8080'') + 3 \<and>
   capacityAt 1 Quartile < int (length ''http://localhost:8080'') + 3 \<and>
   capacityAt 1 Medium < int (length ''http://localhost:8080'') + 3 \<and>
   capacityAt 1 Low < int (length ''http://localhost:8080'') + 3 \<and>
   capacityAt 2 High < int (length ''http://localhost:8080'') + 3 \<and>
   capacityAt 2 Quartile < int (length ''http://localhost:8080'') + 3 \<and>
   capacityAt 2 Medium \<ge> int (length ''http://localhost:8080'') + 3 \<and>
   determineVersionAndErrorLevel (int (length ''http://localhost:8080'')) = (2, Medium) \<and>
   capacityAt 1 High < 22 + 3 \<and> capacityAt 1 Quartile < 22 + 3 \<and>
   capacityAt 1 Medium < 22 + 3 \<and> capacityAt 1 Low < 22 + 3 \<and>
   capacityAt 2 High < 22 + 3 \<and> capacityAt 2 Quartile < 22 + 3 \<and>
   capacityAt 2 Medium \<ge> 22 + 3 \<and>
   determineVersionAndErrorLevel 22 = (2, Medium)"
  by (simp add: determineVersionAndErrorLevel_def versionLoop.simps [of _ 1]
      versionLoop.simps [of _ 2] capacityAt_def versionCapacity_def)

text \<open>
  C9. For the empty payload the factory returns its invalid-input error, and with it no
  symbol: the test is the first statement, before the sizer and before the grids are
  allocated.
\<close>

theorem empty_payload_input_error:
  "NewQRCode [] = Inl (InvalidURLFormat [])"
  by (simp add: NewQRCode_def isValidURL_def)

section \<open>Claims about the data placer, the masks and the penalty\<close>

lemma wellFormed_exampleSymbol: "wellFormed exampleSymbol"
  by (simp add: wellFormed_def gridSquare_def exampleSymbol_def)

text \<open>
  C2. On a symbol whose grids are \<open>Size\<close> by \<open>Size\<close>, \<open>addData\<close> returns and so does
  \<open>applyMask\<close>, for every mask index; neither changes the function grid, and every cell
  that is a function cell beforehand has the same module value afterwards.
\<close>

theorem function_cells_untouched:
  assumes "wellFormed qr"
  shows "(\<exists>q. addData data qr = Some q \<and> IsFunction q = IsFunction qr \<and>
            (\<forall>x y. inBounds qr x y \<and> IsFunction qr ! nat y ! nat x \<longrightarrow>
               Modules q ! nat y ! nat x = Modules qr ! nat y ! nat x)) \<and>
         (\<exists>q. applyMask msk qr = Some q \<and> IsFunction q = IsFunction qr \<and>
            (\<forall>x y. inBounds qr x y \<and> IsFunction qr ! nat y ! nat x \<longrightarrow>
               Modules q ! nat y ! nat x = Modules qr ! nat y ! nat x))"
proof
  from addData_frame [OF assms, of data]
  show "\<exists>q. addData data qr = Some q \<and> IsFunction q = IsFunction qr \<and>
            (\<forall>x y. inBounds qr x y \<and> IsFunction qr ! nat y ! nat x \<longrightarrow>
               Modules q ! nat y ! nat x = Modules qr ! nat y ! nat x)"
    by (simp add: inBounds_def cell_def) blast
next
  from applyMask_frame [OF assms, of msk]
  show "\<exists>q. applyMask msk qr = Some q \<and> IsFunction q = IsFunction qr \<and>
            (\<forall>x y. inBounds qr x y \<and> IsFunction qr ! nat y ! nat x \<longrightarrow>
               Modules q ! nat y ! nat x = Modules qr ! nat y ! nat x)"
    by (simp add: inBounds_def cell_def) blast
qed

theorem function_cells_untouched_witness:
  "wellFormed exampleSymbol \<and>
   (inBounds exampleSymbol 1 0 \<and> IsFunction exampleSymbol ! nat 0 ! nat 1) \<and>
   (\<exists>q. addData [0xA5, 0x3C] exampleSymbol = Some q \<and>
      Modules q ! nat 0 ! nat 1 = Modules exampleSymbol ! nat 0 ! nat 1) \<and>
   (\<exists>q. applyMask 1 exampleSymbol = Some q \<and>
      Modules q ! nat 0 ! nat 1 = Modules exampleSymbol ! nat 0 ! nat 1) \<and>
   shouldMask 1 0 1"
proof -
  have f: "inBounds exampleSymbol 1 0 \<and> IsFunction exampleSymbol ! nat 0 ! nat 1"
    by (simp add: inBounds_def exampleSymbol_def)
  have m: "shouldMask 1 0 1" by (simp add: shouldMask_def)
  from function_cells_untouched [OF wellFormed_exampleSymbol, of "[0xA5, 0x3C]" 1] f
  have "(\<exists>q. addData [0xA5, 0x3C] exampleSymbol = Some q \<and>
      Modules q ! nat 0 ! nat 1 = Modules exampleSymbol ! nat 0 ! nat 1) \<and>
   (\<exists>q. applyMask 1 exampleSymbol = Some q \<and>
      Modules q ! nat 0 ! nat 1 = Modules exampleSymbol ! nat 0 ! nat 1)"
    by blast
  with wellFormed_exampleSymbol f m show ?thesis by blast
qed

text \<open>
  C3. On a symbol whose grids are \<open>Size\<close> by \<open>Size\<close>, and for every mask index,
  \<open>applyMask\<close> applied twice gives the symbol back, and \<open>findBestMask\<close> returns with
  the symbol as it found it.
\<close>

theorem mask_twice_restores:
  assumes "wellFormed qr"
  shows "(\<exists>q1. applyMask msk qr = Some q1 \<and> applyMask msk q1 = Some qr) \<and>
         (\<exists>m. findBestMask qr = Some (m, qr))"
proof
  from applyMask_twice [OF assms, of msk]
  show "\<exists>q1. applyMask msk qr = Some q1 \<and> applyMask msk q1 = Some qr" by blast
next
  let ?pen = "\<lambda>k. the (maskPenalty qr k)"
  obtain b p q' where f: "fold (pickStep ?pen) [0..7] (0, MaxInt32, qr) = (b, p, q')"
    by (cases "fold (pickStep ?pen) [0..7] (0, MaxInt32, qr)") blast
  from pickStep_fold [OF f sorted_upto distinct_upto] have "q' = qr" by simp
  with f findBestMask_fold [OF assms] show "\<exists>m. findBestMask qr = Some (m, qr)"
    by (simp add: findBestMask_def)
qed

theorem mask_twice_restores_witness:
  "wellFormed exampleSymbol \<and>
   (\<exists>q1. applyMask 4 exampleSymbol = Some q1 \<and> applyMask 4 q1 = Some exampleSymbol) \<and>
   (\<exists>m. findBestMask exampleSymbol = Some (m, exampleSymbol))"
  using mask_twice_restores [OF wellFormed_exampleSymbol, of 4] wellFormed_exampleSymbol
  by blast

text \<open>
  C6. On a symbol whose grids are \<open>Size\<close> by \<open>Size\<close>, with \<open>Size\<close> at most 46340
  (so that every penalty is below \<open>math.MaxInt32\<close>), \<open>findBestMask\<close> returns a mask in
  0..7 whose penalty is at most that of each of the eight masks and strictly below that of
  every lower mask index.
\<close>

theorem best_mask_minimal_lowest:
  assumes wf: "wellFormed qr" and small: "Size qr \<le> 46340"
  shows "\<exists>m q p. findBestMask qr = Some (m, q) \<and> 0 \<le> m \<and> m \<le> 7 \<and>
           maskPenalty qr m = Some p \<and>
           (\<forall>k. 0 \<le> k \<and> k \<le> 7 \<longrightarrow>
              (\<exists>p'. maskPenalty qr k = Some p' \<and> p \<le> p' \<and> (k < m \<longrightarrow> p < p')))"
proof -
  let ?pen = "\<lambda>k. the (maskPenalty qr k)"
  have pen: "maskPenalty qr k = Some (?pen k) \<and> ?pen k < MaxInt32" for k
  proof -
    from maskPenalty_total [OF wf, of k] obtain p where
      p: "maskPenalty qr k = Some p" "p \<le> Size qr * Size qr" by blast
    from wf have "0 \<le> Size qr" by (simp add: wellFormed_def)
    with small have "Size qr * Size qr \<le> 46340 * 46340" by (intro mult_mono) simp_all
    with p show ?thesis by (simp add: MaxInt32_def)
  qed
  obtain b p q' where f: "fold (pickStep ?pen) [0..7] (0, MaxInt32, qr) = (b, p, q')"
    by (cases "fold (pickStep ?pen) [0..7] (0, MaxInt32, qr)") blast
  from pickStep_fold [OF f sorted_upto distinct_upto]
  have le: "\<forall>k \<in> set [0..7]. p \<le> ?pen k"
    and alt: "(b = 0 \<and> p = MaxInt32) \<or>
       (b \<in> set [0..7] \<and> ?pen b = p \<and> p < MaxInt32 \<and> (\<forall>k \<in> set [0..7]. k < b \<longrightarrow> p < ?pen k))"
    by simp_all
  from le have "p \<le> ?pen 0" by simp
  with pen [of 0] have "p \<noteq> MaxInt32" by simp
  with alt have b: "b \<in> set [0..7]" "?pen b = p" "\<forall>k \<in> set [0..7]. k < b \<longrightarrow> p < ?pen k"
    by auto
  from f findBestMask_fold [OF wf] have fb: "findBestMask qr = Some (b, q')"
    by (simp add: findBestMask_def)
  have "\<exists>p'. maskPenalty qr k = Some p' \<and> p \<le> p' \<and> (k < b \<longrightarrow> p < p')"
    if "0 \<le> k \<and> k \<le> 7" for k
  proof -
    from that have "k \<in> set [0..7]" by simp
    with le b(3) pen [of k] show ?thesis by auto
  qed
  with fb b(1,2) pen [of b] show ?thesis by auto
qed

theorem best_mask_minimal_lowest_witness:
  "wellFormed exampleSymbol \<and> Size exampleSymbol \<le> 46340 \<and>
   (\<exists>m q p. findBestMask exampleSymbol = Some (m, q) \<and> 0 \<le> m \<and> m \<le> 7 \<and>
      maskPenalty exampleSymbol m = Some p \<and>
      (\<forall>k. 0 \<le> k \<and> k \<le> 7 \<longrightarrow>
         (\<exists>p'. maskPenalty exampleSymbol k = Some p' \<and> p \<le> p' \<and> (k < m \<longrightarrow> p < p')))) \<and>
   findBestMask exampleSymbol = Some (2, exampleSymbol) \<and>
   map (maskPenalty exampleSymbol) [0..7] =
     [Some 7, Some 6, Some 0, Some 0, Some 4, Some 3, Some 0, Some 0]"
proof -
  have s: "Size exampleSymbol \<le> 46340" by (simp add: exampleSymbol_def)
  have e1: "findBestMask exampleSymbol = Some (2, exampleSymbol)" by code_simp
  have e2: "map (maskPenalty exampleSymbol) [0..7] =
     [Some 7, Some 6, Some 0, Some 0, Some 4, Some 3, Some 0, Some 0]"
    by code_simp
  from best_mask_minimal_lowest [OF wellFormed_exampleSymbol s] wellFormed_exampleSymbol s e1 e2
  show ?thesis by blast
qed

text \<open>
  C7. On a symbol whose grids are \<open>Size\<close> by \<open>Size\<close>, \<open>calculatePenalty\<close> returns the
  reference row-run score of the module grid: over all rows, the sum over the maximal runs
  of equal cells of length at least 5 of \<open>3 + (length - 5)\<close>, and nothing else.
\<close>

theorem penalty_is_row_run_score:
  assumes "wellFormed qr"
  shows "calculatePenalty qr = Some (referencePenalty (Modules qr))"
  using calculatePenalty_ref [OF assms] .

theorem penalty_is_row_run_score_witness:
  "wellFormed exampleSymbol \<and>
   calculatePenalty exampleSymbol = Some (referencePenalty (Modules exampleSymbol)) \<and>
   referencePenalty (Modules exampleSymbol) = 10 \<and>
   map maximalRuns (Modules exampleSymbol) =
     [[6], [1, 5], [1, 1, 1, 1, 1, 1], [5, 1], [2, 2, 2], [1, 1, 1, 1, 1, 1]]"
proof -
  have e1: "referencePenalty (Modules exampleSymbol) = 10" by code_simp
  have e2: "map maximalRuns (Modules exampleSymbol) =
     [[6], [1, 5], [1, 1, 1, 1, 1, 1], [5, 1], [2, 2, 2], [1, 1, 1, 1, 1, 1]]"
    by code_simp
  from penalty_is_row_run_score [OF wellFormed_exampleSymbol] wellFormed_exampleSymbol e1 e2
  show ?thesis by blast
qed

section \<open>Claims about the encoder\<close>

text \<open>
  C5. When the capacity of the symbol's version and level is at least the payload length
  plus 3, \<open>encodeData\<close> returns exactly that many bytes, and their bits are, in order:
  the mode indicator 0100, the low eight bits of the payload length, the payload bytes
  highest bit first, four zero terminator bits (which end on a byte boundary, so the
  padding to the boundary is empty), and the bytes 0xEC, 0x11 in turn up to the capacity.
\<close>

theorem encodeData_fills_capacity:
  assumes cap: "getDataCapacity qr \<ge> int (length (Data qr)) + 3"
  shows "length (encodeData qr) = nat (getDataCapacity qr) \<and>
         bytesToBits (encodeData qr) =
           [False, True, False, False] @ intToBits (int (length (Data qr))) 8 @
           bytesToBits (Data qr) @ replicate 4 False @
           bytesToBits (map (\<lambda>k. if even k then 0xEC else 0x11)
             [0..<nat (getDataCapacity qr) - (length (Data qr) + 2)])"
  using encodeData_layout [OF cap] .

theorem encodeData_fills_capacity_witness:
  "getDataCapacity exampleSymbol \<ge> int (length (Data exampleSymbol)) + 3 \<and>
   length (encodeData exampleSymbol) = nat (getDataCapacity exampleSymbol) \<and>
   getDataCapacity exampleSymbol = 17 \<and>
   encodeData exampleSymbol =
     [0x40, 0x2A, 0x53, 0xC0, 0xEC, 0x11, 0xEC, 0x11, 0xEC, 0x11, 0xEC, 0x11, 0xEC, 0x11,
      0xEC, 0x11, 0xEC]"
proof -
  have c: "getDataCapacity exampleSymbol = 17"
    by (simp add: getDataCapacity_def exampleSymbol_def versionCapacity_def)
  then have h: "getDataCapacity exampleSymbol \<ge> int (length (Data exampleSymbol)) + 3"
    by (simp add: exampleSymbol_def)
  have v: "encodeData exampleSymbol =
     [0x40, 0x2A, 0x53, 0xC0, 0xEC, 0x11, 0xEC, 0x11, 0xEC, 0x11, 0xEC, 0x11, 0xEC, 0x11,
      0xEC, 0x11, 0xEC]"
    by code_simp
  from encodeData_fills_capacity [OF h] h c v show ?thesis by blast
qed

text \<open>
  C10. A payload of 256 to 268 bytes is accepted, at version 10 (level Low), and the
  eight bits of the length field that \<open>encodeData\<close> writes after the mode indicator are
  \<open>intToBits\<close> of the length, whose value is the length modulo 256 and not the length.
\<close>

theorem long_payload_length_field_truncated:
  assumes "256 \<le> length url" "length url \<le> 268"
  shows "\<exists>qr. NewQRCode url = Inr qr \<and> Version qr = 10 \<and> QRCode.ErrorLevel qr = Low \<and>
           take 8 (drop 4 (bytesToBits (encodeData qr))) = intToBits (int (length url)) 8 \<and>
           bitsToNat (take 8 (drop 4 (bytesToBits (encodeData qr)))) = length url mod 256 \<and>
           length url mod 256 \<noteq> length url"
proof -
  define qr where "qr = initializeGrids
      \<lparr>Version = 10, Size = 21 + (10 - 1) * 4, ErrorLevel = Low, Mask = 0,
       Modules = [], IsFunction = [], Data = map of_char url\<rparr>"
  from assms have sel: "determineVersionAndErrorLevel (int (length url)) = (10, Low)"
    by (simp add: determineVersionAndErrorLevel_def versionLoop_10_Low)
  from assms have "url \<noteq> []" by auto
  with sel have new: "NewQRCode url = Inr qr"
    by (simp add: NewQRCode_def isValidURL_def qr_def Let_def)
  have fields: "Version qr = 10" "QRCode.ErrorLevel qr = Low" "Data qr = map of_char url"
    by (simp_all add: qr_def initializeGrids_def)
  have capv: "getDataCapacity qr = 271"
    by (simp add: getDataCapacity_def fields versionCapacity_def)
  with assms fields have cap: "getDataCapacity qr \<ge> int (length (Data qr)) + 3" by simp
  from encodeData_layout [OF cap] fields
  have field: "take 8 (drop 4 (bytesToBits (encodeData qr))) = intToBits (int (length url)) 8"
    by (simp add: length_intToBits)
  have "bitsToNat (intToBits (int (length url)) 8) = length url mod 256"
    by (simp add: bitsToNat_intToBits take_bit_eq_mod nat_mod_distrib)
  with field have val: "bitsToNat (take 8 (drop 4 (bytesToBits (encodeData qr)))) = length url mod 256"
    by simp
  from assms have "length url mod 256 \<noteq> length url" by simp
  with new fields field val show ?thesis by blast
qed

theorem long_payload_length_field_truncated_witness:
  "256 \<le> length (replicate 260 CHR ''a'') \<and> length (replicate 260 CHR ''a'') \<le> 268 \<and>
   (\<exists>qr. NewQRCode (replicate 260 CHR ''a'') = Inr qr \<and> Version qr = 10 \<and>
      QRCode.ErrorLevel qr = Low \<and>
      bitsToNat (take 8 (drop 4 (bytesToBits (encodeData qr)))) = 4)"
proof -
  have h: "256 \<le> length (replicate 260 CHR ''a'')" "length (replicate 260 CHR ''a'') \<le> 268"
    by simp_all
  from long_payload_length_field_truncated [OF h]
  have "\<exists>qr. NewQRCode (replicate 260 CHR ''a'') = Inr qr \<and> Version qr = 10 \<and>
      QRCode.ErrorLevel qr = Low \<and>
      bitsToNat (take 8 (drop 4 (bytesToBits (encodeData qr)))) = 4"
    by simp blast
  with h show ?thesis by blast
qed

section \<open>Claims about the format information\<close>

text \<open>
  C4, as the code has it. On a symbol whose grids are \<open>Size\<close> by \<open>Size\<close> with
  \<open>Size\<close> at least 17 and a mask in 0..7, \<open>addFormatInfo\<close> returns, and afterwards:
  column 8 holds bits 0 to 5 in rows 0 to 5, bit 6 in row 7 and bit 7 in row 8; row 8 holds
  bit 8 in column 7 and bit \<open>i\<close> in column \<open>14 - i\<close> for \<open>i\<close> from 9 to 14 (so columns 0
  to 5 of row 8 hold bits 14 down to 9); column 8 holds bit \<open>i\<close> in row
  \<open>Size - 15 + i\<close> for \<open>i\<close> from 9 to 14; the cell in column 8, row \<open>Size - 8\<close> is dark;
  and all of these are function cells.
\<close>

theorem format_bits_final_positions:
  assumes "wellFormed qr" "17 \<le> Size qr" "0 \<le> Mask qr" "Mask qr < 8"
  shows "\<exists>q. addFormatInfo qr = Some q \<and>
     (let f = formatInfos ! levelIndex (QRCode.ErrorLevel qr) ! nat (Mask qr); n = Size qr in
      (\<forall>i. 0 \<le> i \<and> i \<le> 5 \<longrightarrow>
         Modules q ! nat i ! 8 = formatBit f i \<and> IsFunction q ! nat i ! 8) \<and>
      Modules q ! 7 ! 8 = formatBit f 6 \<and> IsFunction q ! 7 ! 8 \<and>
      Modules q ! 8 ! 8 = formatBit f 7 \<and> IsFunction q ! 8 ! 8 \<and>
      Modules q ! 8 ! 7 = formatBit f 8 \<and> IsFunction q ! 8 ! 7 \<and>
      (\<forall>i. 9 \<le> i \<and> i \<le> 14 \<longrightarrow>
         Modules q ! 8 ! nat (14 - i) = formatBit f i \<and> IsFunction q ! 8 ! nat (14 - i) \<and>
         Modules q ! nat (n - 15 + i) ! 8 = formatBit f i \<and>
         IsFunction q ! nat (n - 15 + i) ! 8) \<and>
      Modules q ! nat (n - 8) ! 8 \<and> IsFunction q ! nat (n - 8) ! 8)"
proof -
  from addFormatInfo_inv [OF assms] obtain q where
    q: "addFormatInfo qr = Some q"
      "fmtInv (formatInfos ! levelIndex (QRCode.ErrorLevel qr) ! nat (Mask qr)) (Size qr) 15 q"
      "cell (Modules q) (Size qr - 8) 8" "cell (IsFunction q) (Size qr - 8) 8"
    by blast
  from q(2,3,4) have
    "let f = formatInfos ! levelIndex (QRCode.ErrorLevel qr) ! nat (Mask qr); n = Size qr in
      (\<forall>i. 0 \<le> i \<and> i \<le> 5 \<longrightarrow>
         Modules q ! nat i ! 8 = formatBit f i \<and> IsFunction q ! nat i ! 8) \<and>
      Modules q ! 7 ! 8 = formatBit f 6 \<and> IsFunction q ! 7 ! 8 \<and>
      Modules q ! 8 ! 8 = formatBit f 7 \<and> IsFunction q ! 8 ! 8 \<and>
      Modules q ! 8 ! 7 = formatBit f 8 \<and> IsFunction q ! 8 ! 7 \<and>
      (\<forall>i. 9 \<le> i \<and> i \<le> 14 \<longrightarrow>
         Modules q ! 8 ! nat (14 - i) = formatBit f i \<and> IsFunction q ! 8 ! nat (14 - i) \<and>
         Modules q ! nat (n - 15 + i) ! 8 = formatBit f i \<and>
         IsFunction q ! nat (n - 15 + i) ! 8) \<and>
      Modules q ! nat (n - 8) ! 8 \<and> IsFunction q ! nat (n - 8) ! 8"
    unfolding fmtInv_def Let_def cell_def by simp
  with q(1) show ?thesis by blast
qed

theorem format_bits_final_positions_witness:
  "wellFormed freshSymbolA \<and> 17 \<le> Size freshSymbolA \<and> 0 \<le> Mask freshSymbolA \<and>
   Mask freshSymbolA < 8 \<and>
   (\<exists>q. addFormatInfo freshSymbolA = Some q \<and>
      Modules q ! 0 ! 8 = formatBit 0x1689 0 \<and>
      Modules q ! 8 ! 0 = formatBit 0x1689 14 \<and>
      Modules q ! 8 ! 7 = formatBit 0x1689 8 \<and>
      Modules q ! 20 ! 8 = formatBit 0x1689 14 \<and>
      Modules q ! 13 ! 8 \<and> IsFunction q ! 13 ! 8)"
proof -
  have h: "wellFormed freshSymbolA" "17 \<le> Size freshSymbolA" "0 \<le> Mask freshSymbolA"
    "Mask freshSymbolA < 8"
    by (simp_all add: freshSymbolA_def initializeGrids_def wellFormed_def gridSquare_def
        list_all_length)
  have f: "formatInfos ! levelIndex (QRCode.ErrorLevel freshSymbolA) ! nat (Mask freshSymbolA) = 0x1689"
    by (simp add: freshSymbolA_def initializeGrids_def formatInfos_def)
  have n: "Size freshSymbolA = 21" by (simp add: freshSymbolA_def initializeGrids_def)
  from format_bits_final_positions [OF h] obtain q where
    q: "addFormatInfo freshSymbolA = Some q" and
    low: "\<forall>i. 0 \<le> i \<and> i \<le> 5 \<longrightarrow>
         Modules q ! nat i ! 8 = formatBit 0x1689 i \<and> IsFunction q ! nat i ! 8" and
    b8: "Modules q ! 8 ! 7 = formatBit 0x1689 8" and
    high: "\<forall>i. 9 \<le> i \<and> i \<le> 14 \<longrightarrow>
         Modules q ! 8 ! nat (14 - i) = formatBit 0x1689 i \<and> IsFunction q ! 8 ! nat (14 - i) \<and>
         Modules q ! nat (21 - 15 + i) ! 8 = formatBit 0x1689 i \<and>
         IsFunction q ! nat (21 - 15 + i) ! 8" and
    dark: "Modules q ! nat (21 - 8) ! 8" "IsFunction q ! nat (21 - 8) ! 8"
    unfolding Let_def f n by blast
  from low [rule_format, of 0] have c1: "Modules q ! 0 ! 8 = formatBit 0x1689 0" by simp
  from high [rule_format, of 14] have c2: "Modules q ! 8 ! 0 = formatBit 0x1689 14"
    and c3: "Modules q ! 20 ! 8 = formatBit 0x1689 14" by simp_all
  from dark have c4: "Modules q ! 13 ! 8" "IsFunction q ! 13 ! 8" by simp_all
  from h q c1 c2 b8 c3 c4 show ?thesis by blast
qed

text \<open>
  C4, as stated, fails: for the payload \<open>A\<close> (version 1, level High, mask 0, format
  constant 0x1689) bit 0 of the constant is set, but the cell in row 8, column 0 is light
  after \<open>addFormatInfo\<close>: the write of bit 14 came later.
\<close>

theorem format_bits_row8_counterexample:
  "NewQRCode ''A'' = Inr freshSymbolA \<and>
   formatInfoOf freshSymbolA = Some 0x1689 \<and>
   addFormatInfo freshSymbolA \<noteq> None \<and>
   formatBit 0x1689 0 = True \<and>
   Modules (the (addFormatInfo freshSymbolA)) ! 8 ! 0 = False"
  by code_simp

end
